theory Spec2Isabelle
  imports Main "HOL-Library.Char_ord" "HOL-Library.List_Lexorder" "HOL-Library.Multiset" "HOL-Library.AList"
begin

section \<open>Strings\<close>

text \<open>
  A Go string is a sequence of bytes; it is modelled as a \<^typ>\<open>string\<close>, a list of 8-bit
  characters, so that \<open>len(s)\<close> is \<^term>\<open>length s\<close> and \<open>s[:n]\<close> is \<^term>\<open>take n s\<close>.
  Where the standard library reads a string as text it decodes UTF-8, one rune at a time;
  a byte that does not start a well-formed encoding is read as \<open>RuneError\<close> of width 1.
\<close>

type_synonym rune = nat

definition byte :: "char \<Rightarrow> nat" where
  "byte c = of_char c"

definition between :: "nat \<Rightarrow> nat \<Rightarrow> nat \<Rightarrow> bool" where
  "between lo hi b \<longleftrightarrow> lo \<le> b \<and> b \<le> hi"

definition RuneError :: rune where
  "RuneError = 0xFFFD"

definition newline :: char where
  "newline = CHR 0x0A"

subsection \<open>unicode/utf8\<close>

text \<open>
  \<open>utf8.DecodeRuneInString\<close>: the rune at the front of the string and its width in bytes.
  Lead bytes \<open>C2..DF\<close> start two bytes, \<open>E0..EF\<close> three, \<open>F0..F4\<close> four; the second byte
  has a narrower range after \<open>E0\<close>, \<open>ED\<close>, \<open>F0\<close> and \<open>F4\<close> (no overlong form, no surrogate,
  nothing above \<open>U+10FFFF\<close>).
\<close>

fun DecodeRuneInString :: "string \<Rightarrow> rune \<times> nat" where
  "DecodeRuneInString [] = (RuneError, 0)"
| "DecodeRuneInString (c0 # cs) =
     (let s0 = byte c0 in
      if s0 < 0x80 then (s0, 1)
      else if s0 < 0xC2 \<or> 0xF4 < s0 then (RuneError, 1)
      else if s0 < 0xE0 then
        (case cs of
           c1 # _ \<Rightarrow>
             if between 0x80 0xBF (byte c1)
             then ((s0 mod 0x20) * 0x40 + byte c1 mod 0x40, 2)
             else (RuneError, 1)
         | _ \<Rightarrow> (RuneError, 1))
      else if s0 < 0xF0 then
        (case cs of
           c1 # c2 # _ \<Rightarrow>
             if between (if s0 = 0xE0 then 0xA0 else 0x80) (if s0 = 0xED then 0x9F else 0xBF) (byte c1)
                \<and> between 0x80 0xBF (byte c2)
             then ((s0 mod 0x10) * 0x1000 + (byte c1 mod 0x40) * 0x40 + byte c2 mod 0x40, 3)
             else (RuneError, 1)
         | _ \<Rightarrow> (RuneError, 1))
      else
        (case cs of
           c1 # c2 # c3 # _ \<Rightarrow>
             if between (if s0 = 0xF0 then 0x90 else 0x80) (if s0 = 0xF4 then 0x8F else 0xBF) (byte c1)
                \<and> between 0x80 0xBF (byte c2) \<and> between 0x80 0xBF (byte c3)
             then ((s0 mod 0x08) * 0x40000 + (byte c1 mod 0x40) * 0x1000
                   + (byte c2 mod 0x40) * 0x40 + byte c3 mod 0x40, 4)
             else (RuneError, 1)
         | _ \<Rightarrow> (RuneError, 1)))"

text \<open>\<open>utf8.RuneStart\<close>: the byte is not a continuation byte.\<close>

definition RuneStart :: "char \<Rightarrow> bool" where
  "RuneStart c \<longleftrightarrow> \<not> between 0x80 0xBF (byte c)"

text \<open>
  \<open>utf8.DecodeLastRuneInString\<close>: the rune at the end of the string. It steps back over at
  most three bytes to the nearest byte that can start a rune, decodes forward from there,
  and accepts the rune only when it ends exactly at the end of the string.
\<close>

definition DecodeLastRuneInString :: "string \<Rightarrow> rune \<times> nat" where
  "DecodeLastRuneInString s =
     (let n = length s in
      if n = 0 then (RuneError, 0)
      else if byte (s ! (n - 1)) < 0x80 then (byte (s ! (n - 1)), 1)
      else
        (case find (\<lambda>k. RuneStart (s ! (n - k))) (filter (\<lambda>k. k \<le> n) [2, 3, 4]) of
           None \<Rightarrow> (RuneError, 1)
         | Some k \<Rightarrow>
             (case DecodeRuneInString (drop (n - k) s) of
                (r, w) \<Rightarrow> if w = k then (r, w) else (RuneError, 1))))"

text \<open>\<open>utf8.AppendRune\<close>: surrogates and values above \<open>U+10FFFF\<close> are written as \<open>RuneError\<close>.\<close>

definition EncodeRune :: "rune \<Rightarrow> string" where
  "EncodeRune r =
     (if r < 0x80 then [char_of r]
      else if r < 0x800 then [char_of (0xC0 + r div 0x40), char_of (0x80 + r mod 0x40)]
      else if between 0xD800 0xDFFF r \<or> 0x10FFFF < r then [char_of (0xEF::nat), char_of (0xBF::nat), char_of (0xBD::nat)]
      else if r < 0x10000 then
        [char_of (0xE0 + r div 0x1000), char_of (0x80 + (r div 0x40) mod 0x40), char_of (0x80 + r mod 0x40)]
      else
        [char_of (0xF0 + r div 0x40000), char_of (0x80 + (r div 0x1000) mod 0x40),
         char_of (0x80 + (r div 0x40) mod 0x40), char_of (0x80 + r mod 0x40)])"

lemma DecodeRuneInString_width:
  "s \<noteq> [] \<Longrightarrow> 0 < snd (DecodeRuneInString s) \<and> snd (DecodeRuneInString s) \<le> length s"
  by (cases s) (auto simp: Let_def split: list.splits)

lemma DecodeLastRuneInString_width:
  "s \<noteq> [] \<Longrightarrow> 0 < snd (DecodeLastRuneInString s) \<and> snd (DecodeLastRuneInString s) \<le> length s"
proof -
  assume ne: "s \<noteq> []"
  have k: "find P (filter (\<lambda>k. k \<le> length s) [2, 3, 4]) = Some k \<Longrightarrow> 0 < k \<and> k \<le> length s"
    for P and k :: nat
    by (auto split: if_splits)
  from ne have "Suc 0 \<le> length s" by (cases s) auto
  then show ?thesis
    unfolding DecodeLastRuneInString_def Let_def
    by (auto split: option.splits prod.splits dest!: k)
qed

lemma drop_DecodeRuneInString:
  "(r, w) = DecodeRuneInString s \<Longrightarrow> s \<noteq> [] \<Longrightarrow> length (drop w s) < length s"
  using DecodeRuneInString_width [of s] by (cases "DecodeRuneInString s") auto

lemma take_DecodeLastRuneInString:
  "(r, w) = DecodeLastRuneInString s \<Longrightarrow> s \<noteq> [] \<Longrightarrow> length (take (length s - w) s) < length s"
  using DecodeLastRuneInString_width [of s] by (cases "DecodeLastRuneInString s") auto

text \<open>
  The runes of a string with their widths, as a \<open>for _, r := range s\<close> loop or the
  parser of package \<open>regexp\<close> reads them.
\<close>

function decodeAll :: "string \<Rightarrow> (rune \<times> nat) list" where
  "decodeAll s =
     (if s = [] then []
      else (case DecodeRuneInString s of (r, w) \<Rightarrow> (r, w) # decodeAll (drop w s)))"
  by pat_completeness auto
termination
  by (relation "measure length") (auto dest: drop_DecodeRuneInString)

declare decodeAll.simps [simp del]

definition runes :: "string \<Rightarrow> rune list" where
  "runes s = map fst (decodeAll s)"

text \<open>\<open>utf8.ValidString\<close>: no byte is read as \<open>RuneError\<close> of width 1.\<close>

definition ValidString :: "string \<Rightarrow> bool" where
  "ValidString s \<longleftrightarrow> list_all (\<lambda>(r, w). \<not> (r = RuneError \<and> w = 1)) (decodeAll s)"

subsection \<open>unicode and strings\<close>

text \<open>
  \<open>unicode.IsSpace\<close>: the Latin-1 spaces \<open>\t \n \v \f \r\<close>, space, \<open>U+0085\<close>, \<open>U+00A0\<close>, and the
  other code points of category Z and property Pattern_White_Space.
\<close>

definition IsSpace :: "rune \<Rightarrow> bool" where
  "IsSpace r \<longleftrightarrow>
     r \<in> set [0x09, 0x0A, 0x0B, 0x0C, 0x0D, 0x20, 0x85, 0xA0, 0x1680, 0x2028, 0x2029, 0x202F, 0x205F, 0x3000]
     \<or> between 0x2000 0x200A r"

function TrimLeftSpace :: "string \<Rightarrow> string" where
  "TrimLeftSpace s =
     (if s = [] then []
      else (case DecodeRuneInString s of
              (r, w) \<Rightarrow> if IsSpace r then TrimLeftSpace (drop w s) else s))"
  by pat_completeness auto
termination
  by (relation "measure length") (auto dest: drop_DecodeRuneInString)

function TrimRightSpace :: "string \<Rightarrow> string" where
  "TrimRightSpace s =
     (if s = [] then []
      else (case DecodeLastRuneInString s of
              (r, w) \<Rightarrow> if IsSpace r then TrimRightSpace (take (length s - w) s) else s))"
  by pat_completeness auto
termination
  by (relation "measure length") (auto dest: take_DecodeLastRuneInString)

declare TrimLeftSpace.simps [simp del] TrimRightSpace.simps [simp del]

text \<open>\<open>strings.TrimSpace\<close>: leading and trailing white space, as Unicode defines it, removed.\<close>

definition TrimSpace :: "string \<Rightarrow> string" where
  "TrimSpace s = TrimRightSpace (TrimLeftSpace s)"

text \<open>
  \<open>strings.ToLower\<close>. A string of ASCII bytes is lowered byte by byte; any other string is
  decoded, every rune is mapped through \<open>unicode.ToLower\<close> and written back as UTF-8 (so an
  ill-formed byte comes back as the three bytes of \<open>U+FFFD\<close>). The table behind
  \<open>unicode.ToLower\<close> belongs to the Unicode database; it is the parameter \<open>uni\<close>.
\<close>

definition asciiLower :: "char \<Rightarrow> char" where
  "asciiLower c = (if between 0x41 0x5A (byte c) then char_of (byte c + 0x20) else c)"

definition ToLower :: "(rune \<Rightarrow> rune) \<Rightarrow> string \<Rightarrow> string" where
  "ToLower uni s =
     (if list_all (\<lambda>c. byte c < 0x80) s then map asciiLower s
      else concat (map (\<lambda>r. EncodeRune (uni r)) (runes s)))"

type_synonym error = string

text \<open>
  A Go map is kept as the list of its entries, with distinct keys. The order of the list
  carries no meaning: a \<open>range\<close> loop over a map visits the entries in an order that Go
  leaves unspecified, and wherever the program ranges over a map whose order can show in
  the result, the order of the visit is a parameter of the model.
\<close>

type_synonym 'v gomap = "(string \<times> 'v) list"

definition HasPrefix :: "string \<Rightarrow> string \<Rightarrow> bool" where
  "HasPrefix s p \<longleftrightarrow> take (length p) s = p"

definition HasSuffix :: "string \<Rightarrow> string \<Rightarrow> bool" where
  "HasSuffix s p \<longleftrightarrow> length p \<le> length s \<and> drop (length s - length p) s = p"

text \<open>\<open>strings.Count(s, "\n")\<close>: the number of newline bytes of \<open>s\<close>.\<close>

definition CountNewlines :: "string \<Rightarrow> nat" where
  "CountNewlines s = count_list s newline"

text \<open>\<open>strings.SplitN(s, "=", 2)\<close>: cut at the first \<open>=\<close>, or the string alone when it has none.\<close>

definition SplitN2 :: "char \<Rightarrow> string \<Rightarrow> string list" where
  "SplitN2 sep s =
     (if sep \<in> set s then [takeWhile (\<lambda>c. c \<noteq> sep) s, tl (dropWhile (\<lambda>c. c \<noteq> sep) s)]
      else [s])"

text \<open>\<open>strings.Split(s, "/")\<close>: the pieces between the separators, never an empty list.\<close>

fun SplitOn :: "char \<Rightarrow> string \<Rightarrow> string list" where
  "SplitOn sep [] = [[]]"
| "SplitOn sep (c # cs) =
     (if c = sep then [] # SplitOn sep cs
      else (case SplitOn sep cs of p # ps \<Rightarrow> (c # p) # ps | [] \<Rightarrow> [[c]]))"

text \<open>\<open>strings.ReplaceAll(s, old, new)\<close> for one-byte \<open>old\<close> and \<open>new\<close>.\<close>

definition ReplaceAll :: "string \<Rightarrow> char \<Rightarrow> char \<Rightarrow> string" where
  "ReplaceAll s old new = map (\<lambda>c. if c = old then new else c) s"

text \<open>
  \<open>filepath.Ext\<close>, with \<open>/\<close> as the path separator: the suffix of the last path element that
  starts at its final dot, empty when that element has no dot.
\<close>

definition Ext :: "string \<Rightarrow> string" where
  "Ext path =
     (if CHR ''.'' \<in> set (takeWhile (\<lambda>c. c \<noteq> CHR ''/'') (rev path))
      then CHR ''.'' # rev (takeWhile (\<lambda>c. c \<noteq> CHR ''.'') (rev path))
      else [])"

text \<open>\<open>%d\<close> of \<open>fmt.Sprintf\<close> for a non-negative integer.\<close>

fun decimal :: "nat \<Rightarrow> string" where
  "decimal n = (if n < 10 then [char_of (0x30 + n)] else decimal (n div 10) @ [char_of (0x30 + n mod 10)])"

declare decimal.simps [simp del]

section \<open>regexp\<close>

text \<open>
  The patterns of the program use literals, character classes, sequence, alternation,
  greedy repetition, \<open>^\<close> and \<open>\b\<close>. A class is a list of inclusive rune ranges. The matcher
  reads the input rune by rune, as package \<open>regexp\<close> does.
\<close>

datatype regex =
    Eps
  | Cls "(rune \<times> rune) list"
  | NCls "(rune \<times> rune) list"
  | Seq regex regex
  | Alt regex regex
  | Star regex
  | BeginText
  | WordBoundary

definition inRanges :: "rune \<Rightarrow> (rune \<times> rune) list \<Rightarrow> bool" where
  "inRanges r rs \<longleftrightarrow> list_ex (\<lambda>(lo, hi). lo \<le> r \<and> r \<le> hi) rs"

text \<open>
  \<open>\b\<close> is the ASCII word boundary: the runes on the two sides differ in being one of
  \<open>0-9A-Za-z_\<close>. A byte below \<open>0x80\<close> is always a rune of its own and every other rune is
  not a word character, so the two neighbouring bytes decide.
\<close>

definition IsWordChar :: "char \<Rightarrow> bool" where
  "IsWordChar c \<longleftrightarrow>
     between 0x30 0x39 (byte c) \<or> between 0x41 0x5A (byte c) \<or> between 0x61 0x7A (byte c) \<or> byte c = 0x5F"

definition wordBefore :: "string \<Rightarrow> nat \<Rightarrow> bool" where
  "wordBefore s i \<longleftrightarrow> 0 < i \<and> i \<le> length s \<and> IsWordChar (s ! (i - 1))"

definition wordAfter :: "string \<Rightarrow> nat \<Rightarrow> bool" where
  "wordAfter s i \<longleftrightarrow> i < length s \<and> IsWordChar (s ! i)"

text \<open>
  \<open>ends re s i\<close> lists the positions at which a match of \<open>re\<close> that starts at byte \<open>i\<close> of
  \<open>s\<close> can end, in the order in which the backtracking matcher prefers them: the left
  branch of an alternation first, one more round of a repetition before stopping. A round
  of a repetition has to consume input.
\<close>

function ends :: "regex \<Rightarrow> string \<Rightarrow> nat \<Rightarrow> nat list" where
  "ends Eps s i = [i]"
| "ends (Cls rs) s i =
     (if i < length s
      then (case DecodeRuneInString (drop i s) of (r, w) \<Rightarrow> if inRanges r rs then [i + w] else [])
      else [])"
| "ends (NCls rs) s i =
     (if i < length s
      then (case DecodeRuneInString (drop i s) of (r, w) \<Rightarrow> if inRanges r rs then [] else [i + w])
      else [])"
| "ends (Seq a b) s i = concat (map (\<lambda>j. ends b s j) (ends a s i))"
| "ends (Alt a b) s i = ends a s i @ ends b s i"
| "ends (Star a) s i =
     concat (map (\<lambda>j. if i < j \<and> j \<le> length s then ends (Star a) s j else []) (ends a s i)) @ [i]"
| "ends BeginText s i = (if i = 0 then [i] else [])"
| "ends WordBoundary s i = (if wordBefore s i \<noteq> wordAfter s i then [i] else [])"
  by pat_completeness auto
termination
  by (relation "(\<lambda>(re, s, i). size re) <*mlex*> measure (\<lambda>(re, s, i). length s - i)")
     (auto simp: wf_mlex mlex_less mlex_leq)

declare ends.simps(6) [simp del]

text \<open>
  The leftmost-first match at or after byte \<open>b\<close>: the first start position, stepping over
  whole runes, from which the pattern matches, with the end the matcher prefers.
\<close>

function search :: "regex \<Rightarrow> string \<Rightarrow> nat \<Rightarrow> (nat \<times> nat) option" where
  "search re s b =
     (case ends re s b of
        e # _ \<Rightarrow> Some (b, e)
      | [] \<Rightarrow>
          if b < length s then search re s (b + snd (DecodeRuneInString (drop b s)))
          else None)"
  by pat_completeness auto
termination
proof (relation "measure (\<lambda>(re, s, b). length s - b)")
  fix re :: regex and s :: string and b :: nat
  assume "b < length s"
  then have "0 < snd (DecodeRuneInString (drop b s))"
    using DecodeRuneInString_width [of "drop b s"] by simp
  with \<open>b < length s\<close>
  show "((re, s, b + snd (DecodeRuneInString (drop b s))), (re, s, b)) \<in> measure (\<lambda>(re, s, b). length s - b)"
    by simp
qed simp

declare search.simps [simp del]

lemma ends_bounds: "i \<le> length s \<Longrightarrow> j \<in> set (ends re s i) \<Longrightarrow> i \<le> j \<and> j \<le> length s"
proof (induction re s i arbitrary: j rule: ends.induct)
  case (2 rs s i)
  obtain r w where d: "DecodeRuneInString (drop i s) = (r, w)" by fastforce
  show ?case
  proof (cases "i < length s")
    case True
    with "2.prems" d have "j = i + w" by (cases "inRanges r rs") simp_all
    with True DecodeRuneInString_width [of "drop i s"] d show ?thesis by auto
  next
    case False
    with "2.prems" show ?thesis by simp
  qed
next
  case (3 rs s i)
  obtain r w where d: "DecodeRuneInString (drop i s) = (r, w)" by fastforce
  show ?case
  proof (cases "i < length s")
    case True
    with "3.prems" d have "j = i + w" by (cases "inRanges r rs") simp_all
    with True DecodeRuneInString_width [of "drop i s"] d show ?thesis by auto
  next
    case False
    with "3.prems" show ?thesis by simp
  qed
next
  case (4 a b s i)
  from "4.prems" obtain k where k: "k \<in> set (ends a s i)" "j \<in> set (ends b s k)" by auto
  from "4.IH"(1) [OF "4.prems"(1) k(1)] have "i \<le> k" "k \<le> length s" by auto
  with "4.IH"(2) [OF k(1) _ k(2)] show ?case by auto
next
  case (6 a s i)
  show ?case
  proof (cases "j = i")
    case True
    with "6.prems" show ?thesis by simp
  next
    case False
    with "6.prems" obtain k where k: "k \<in> set (ends a s i)" "i < k" "k \<le> length s"
        "j \<in> set (ends (Star a) s k)"
      by (subst (asm) ends.simps(6)) (auto split: if_splits)
    from "6.IH"(2) [OF k(1) _ k(3) k(4)] k(2) k(3) show ?thesis by auto
  qed
qed (auto split: if_splits)

lemma search_bounds:
  "search re s b = Some (m, e) \<Longrightarrow> b \<le> length s \<Longrightarrow> b \<le> m \<and> m \<le> e \<and> e \<le> length s"
proof (induction re s b rule: search.induct)
  case (1 re s b)
  show ?case
  proof (cases "ends re s b")
    case Nil
    with "1.prems" have lt: "b < length s"
      and rec: "search re s (b + snd (DecodeRuneInString (drop b s))) = Some (m, e)"
      by (auto simp: search.simps [of re s b] split: if_splits)
    from lt have "b + snd (DecodeRuneInString (drop b s)) \<le> length s"
      using DecodeRuneInString_width [of "drop b s"] by auto
    from "1.IH" [OF Nil lt rec this] show ?thesis by simp
  next
    case (Cons e' es)
    with "1.prems" have "m = b" "e = e'" by (auto simp: search.simps [of re s b])
    with Cons ends_bounds [of b s e re] "1.prems" show ?thesis by simp
  qed
qed

text \<open>
  \<open>FindAllStringIndex(s, -1)\<close>: the successive leftmost-first matches. After a match the
  search resumes at its end; after an empty match it resumes one rune further, and an empty
  match right at the end of the previous match is not delivered.
\<close>

function findAll :: "regex \<Rightarrow> string \<Rightarrow> nat \<Rightarrow> nat option \<Rightarrow> (nat \<times> nat) list" where
  "findAll re s pos prevMatchEnd =
     (if length s < pos then []
      else
        (case search re s pos of
           None \<Rightarrow> []
         | Some (b, e) \<Rightarrow>
             if e \<le> pos then
               (if Some b = prevMatchEnd then [] else [(b, e)])
               @ findAll re s
                   (if pos < length s then pos + snd (DecodeRuneInString (drop pos s)) else length s + 1)
                   (Some e)
             else (b, e) # findAll re s e (Some e)))"
  by pat_completeness auto
termination
proof (relation "measure (\<lambda>(re, s, pos, prev). length s + 1 - pos)")
  fix re :: regex and s :: string and pos :: nat and prev :: "nat option"
    and x :: "nat \<times> nat" and b e :: nat
  assume a: "\<not> length s < pos" "search re s pos = Some x" "(b, e) = x"
  {
    assume "e \<le> pos"
    have "pos < length s \<Longrightarrow> 0 < snd (DecodeRuneInString (drop pos s))"
      using DecodeRuneInString_width [of "drop pos s"] by simp
    with a show "((re, s, if pos < length s then pos + snd (DecodeRuneInString (drop pos s)) else length s + 1, Some e),
                  (re, s, pos, prev)) \<in> measure (\<lambda>(re, s, pos, prev). length s + 1 - pos)"
      by auto
  }
  {
    assume "\<not> e \<le> pos"
    moreover from a search_bounds [of re s pos b e] have "e \<le> length s" by auto
    ultimately show "((re, s, e, Some e), (re, s, pos, prev)) \<in> measure (\<lambda>(re, s, pos, prev). length s + 1 - pos)"
      by auto
  }
qed simp

declare findAll.simps [simp del]

definition FindAllStringIndex :: "regex \<Rightarrow> string \<Rightarrow> (nat \<times> nat) list" where
  "FindAllStringIndex re s = findAll re s 0 None"

definition MatchString :: "regex \<Rightarrow> string \<Rightarrow> bool" where
  "MatchString re s \<longleftrightarrow> search re s 0 \<noteq> None"

text \<open>
  \<open>Regexp.Split(s, -1)\<close>: the pieces of \<open>s\<close> between the matches. A match that ends at
  byte 0 contributes no piece, and the rest of the string is appended unless the last
  match starts at the end of the string.
\<close>

fun splitLoop :: "string \<Rightarrow> (nat \<times> nat) list \<Rightarrow> nat \<Rightarrow> nat \<Rightarrow> string list" where
  "splitLoop s [] beg end = (if end \<noteq> length s then [drop beg s] else [])"
| "splitLoop s ((b, e) # ms) beg end =
     (if e \<noteq> 0 then [take (b - beg) (drop beg s)] else []) @ splitLoop s ms e b"

definition Split :: "regex \<Rightarrow> string \<Rightarrow> string list" where
  "Split re s = (if s = [] then [[]] else splitLoop s (FindAllStringIndex re s) 0 0)"

subsection \<open>Writing patterns\<close>

definition rng :: "char \<Rightarrow> char \<Rightarrow> rune \<times> rune" where
  "rng a b = (byte a, byte b)"

definition chr :: "char \<Rightarrow> rune \<times> rune" where
  "chr a = (byte a, byte a)"

definition seqs :: "regex list \<Rightarrow> regex" where
  "seqs rs = foldr Seq rs Eps"

text \<open>A literal string of the pattern text (ASCII), and a literal sequence of runes.\<close>

definition lit :: "string \<Rightarrow> regex" where
  "lit s = seqs (map (\<lambda>c. Cls [chr c]) s)"

definition litRunes :: "rune list \<Rightarrow> regex" where
  "litRunes rs = seqs (map (\<lambda>r. Cls [(r, r)]) rs)"

text \<open>
  Under \<open>(?i)\<close> a letter stands for every rune of its case-folding orbit: both cases, and
  with them \<open>U+017F\<close> (long s) for \<open>s\<close> and \<open>U+212A\<close> (Kelvin sign) for \<open>k\<close>.
\<close>

definition foldOrbit :: "char \<Rightarrow> (rune \<times> rune) list" where
  "foldOrbit c =
     (if between 0x61 0x7A (byte c) then [(byte c, byte c), (byte c - 0x20, byte c - 0x20)]
      else if between 0x41 0x5A (byte c) then [(byte c, byte c), (byte c + 0x20, byte c + 0x20)]
      else [(byte c, byte c)])
     @ (if c = CHR ''s'' \<or> c = CHR ''S'' then [(0x17F, 0x17F)] else [])
     @ (if c = CHR ''k'' \<or> c = CHR ''K'' then [(0x212A, 0x212A)] else [])"

definition ilit :: "string \<Rightarrow> regex" where
  "ilit s = seqs (map (\<lambda>c. Cls (foldOrbit c)) s)"

definition opt :: "regex \<Rightarrow> regex" where
  "opt r = Alt r Eps"

definition plus :: "regex \<Rightarrow> regex" where
  "plus r = Seq r (Star r)"

text \<open>\<open>r{n}\<close> and \<open>r{n,}\<close>.\<close>

definition rep :: "nat \<Rightarrow> regex \<Rightarrow> regex" where
  "rep n r = (Seq r ^^ n) Eps"

definition repMin :: "nat \<Rightarrow> regex \<Rightarrow> regex" where
  "repMin n r = (Seq r ^^ n) (Star r)"

text \<open>\<open>\s\<close> is \<open>[\t\n\f\r ]\<close>, \<open>\S\<close> its complement, \<open>\d\<close> is \<open>[0-9]\<close>.\<close>

definition perlSpace :: "(rune \<times> rune) list" where
  "perlSpace = [(0x09, 0x0A), (0x0C, 0x0D), (0x20, 0x20)]"

definition digit :: "rune \<times> rune" where
  "digit = rng CHR ''0'' CHR ''9''"

definition upper :: "rune \<times> rune" where
  "upper = rng CHR ''A'' CHR ''Z''"

definition lower :: "rune \<times> rune" where
  "lower = rng CHR ''a'' CHR ''z''"

section \<open>patterns.go\<close>

definition ExitSuccess :: int where
  "ExitSuccess = 0"

definition ExitBlocked :: int where
  "ExitBlocked = 2"

definition MinSecretLength :: nat where
  "MinSecretLength = 8"

definition MaxFileSize :: nat where
  "MaxFileSize = 10 * 1024 * 1024"

record SecretPattern =
  Pattern :: regex
  Description :: string

definition skipValues :: "string set" where
  "skipValues =
     {''true'', ''false'', ''yes'', ''no'', ''on'', ''off'', ''development'', ''production'',
      ''staging'', ''test'', ''localhost'', ''127.0.0.1'', ''0.0.0.0'', ''utf-8'', ''utf8'',
      ''none'', ''null''}"

definition binaryExtensions :: "string set" where
  "binaryExtensions =
     {''.png'', ''.jpg'', ''.jpeg'', ''.gif'', ''.pdf'', ''.zip'', ''.wasm'', ''.exe'', ''.dll'',
      ''.so'', ''.pyc'', ''.class'', ''.woff'', ''.woff2'', ''.ttf'', ''.eot'', ''.ico'', ''.mp3'',
      ''.mp4'', ''.mov'', ''.tar'', ''.gz'', ''.7z'', ''.bin'', ''.dat'', ''.db'', ''.sqlite'',
      ''.sqlite3'', ''.svg'', ''.lock''}"

definition compoundBinaryExtensions :: "string list" where
  "compoundBinaryExtensions = [''.min.js'', ''.min.css'']"

definition envFileNames :: "string set" where
  "envFileNames =
     {''.env'', ''.env.local'', ''.env.production'', ''.env.development'', ''.env.test'',
      ''.env.staging'', ''.env.example''}"

text \<open>
  The classes of the catalog. Under \<open>(?i)\<close> a class is closed under case folding, which
  adds \<open>U+017F\<close> and \<open>U+212A\<close> to a class that holds the letters.
\<close>

definition alnum :: "(rune \<times> rune) list" where
  "alnum = [lower, upper, digit]"

definition foldedLetters :: "(rune \<times> rune) list" where
  "foldedLetters = [(0x17F, 0x17F), (0x212A, 0x212A)]"

definition connStringTail :: regex where
  \<comment> \<open>\<open>://[^:]+:[^@\s]+@\<close>\<close>
  "connStringTail =
     seqs [lit ''://'', plus (NCls [chr CHR '':'']), lit '':'',
           plus (NCls (chr CHR ''@'' # perlSpace)), lit ''@'']"

definition githubToken :: "string \<Rightarrow> regex" where
  \<comment> \<open>\<open>ghX_[a-zA-Z0-9]{36}\<close>\<close>
  "githubToken prefix = seqs [lit prefix, rep 36 (Cls alnum)]"

text \<open>
  The catalog, in the order of the source. The pattern texts are
  \<^verbatim>\<open>(?i)(secret|token)\s*[:=]\s*['"]?[a-zA-Z0-9_\-]{20,}\<close>,
  \<^verbatim>\<open>(?i)(aws_access_key_id|aws_secret_access_key)\s*[:=]\<close>,
  \<^verbatim>\<open>AKIA[0-9A-Z]{16}\<close>,
  \<^verbatim>\<open>sk-[a-zA-Z0-9]{20,}\<close>,
  \<^verbatim>\<open>sk-proj-[a-zA-Z0-9]{20,}\<close>,
  \<^verbatim>\<open>AIza[0-9A-Za-z\-_]{35}\<close>,
  \<^verbatim>\<open>ghp_[a-zA-Z0-9]{36}\<close> and the same with \<open>gho_\<close>, \<open>ghu_\<close>, \<open>ghs_\<close>, \<open>ghr_\<close>,
  \<^verbatim>\<open>(?i)bearer\s+[a-zA-Z0-9_\-\.]{20,}\<close>,
  \<^verbatim>\<open>-----BEGIN (RSA |DSA |EC |OPENSSH )?PRIVATE KEY-----\<close>,
  \<^verbatim>\<open>xox[baprs]-[a-zA-Z0-9\-]{10,}\<close>,
  \<^verbatim>\<open>sk_live_[a-zA-Z0-9]{24,}\<close>,
  \<^verbatim>\<open>rk_live_[a-zA-Z0-9]{24,}\<close>,
  \<^verbatim>\<open>SG\.[a-zA-Z0-9_\-]{20,}\.[a-zA-Z0-9_\-]{20,}\<close>,
  \<^verbatim>\<open>mongodb(\+srv)?://[^:]+:[^@\s]+@\<close>,
  \<^verbatim>\<open>postgres(ql)?://[^:]+:[^@\s]+@\<close>,
  \<^verbatim>\<open>mysql://[^:]+:[^@\s]+@\<close>,
  \<^verbatim>\<open>sk-ant-[a-zA-Z0-9\-]{20,}\<close>,
  \<^verbatim>\<open>[MN][A-Za-z\d]{23,}\.[A-Za-z\d_-]{6}\.[A-Za-z\d_-]{27}\<close>,
  \<^verbatim>\<open>npm_[a-zA-Z0-9]{36}\<close>,
  \<^verbatim>\<open>pypi-[a-zA-Z0-9]{43,}\<close>,
  \<^verbatim>\<open>SK[a-fA-F0-9]{32}\<close>,
  \<^verbatim>\<open>key-[a-zA-Z0-9]{32}\<close>.
\<close>

definition secretPatterns :: "SecretPattern list" where
  "secretPatterns =
   [\<lparr>Pattern = seqs [Alt (ilit ''secret'') (ilit ''token''), Star (Cls perlSpace),
                      Cls [chr CHR '':'', chr CHR ''=''], Star (Cls perlSpace),
                      opt (Cls [chr (CHR 0x27), chr (CHR 0x22)]),
                      repMin 20 (Cls (alnum @ [chr CHR ''_'', chr CHR ''-''] @ foldedLetters))],
     Description = ''secret/token''\<rparr>,
    \<lparr>Pattern = seqs [Alt (ilit ''aws_access_key_id'') (ilit ''aws_secret_access_key''),
                      Star (Cls perlSpace), Cls [chr CHR '':'', chr CHR ''='']],
     Description = ''AWS credentials''\<rparr>,
    \<lparr>Pattern = seqs [lit ''AKIA'', rep 16 (Cls [digit, upper])],
     Description = ''AWS Access Key ID''\<rparr>,
    \<lparr>Pattern = seqs [lit ''sk-'', repMin 20 (Cls alnum)],
     Description = ''OpenAI API key''\<rparr>,
    \<lparr>Pattern = seqs [lit ''sk-proj-'', repMin 20 (Cls alnum)],
     Description = ''OpenAI project API key''\<rparr>,
    \<lparr>Pattern = seqs [lit ''AIza'', rep 35 (Cls [digit, upper, lower, chr CHR ''-'', chr CHR ''_''])],
     Description = ''Google API key''\<rparr>,
    \<lparr>Pattern = githubToken ''ghp_'', Description = ''GitHub Personal Access Token''\<rparr>,
    \<lparr>Pattern = githubToken ''gho_'', Description = ''GitHub OAuth Token''\<rparr>,
    \<lparr>Pattern = githubToken ''ghu_'', Description = ''GitHub User Token''\<rparr>,
    \<lparr>Pattern = githubToken ''ghs_'', Description = ''GitHub Server Token''\<rparr>,
    \<lparr>Pattern = githubToken ''ghr_'', Description = ''GitHub Refresh Token''\<rparr>,
    \<lparr>Pattern = seqs [ilit ''bearer'', plus (Cls perlSpace),
                      repMin 20 (Cls (alnum @ [chr CHR ''_'', chr CHR ''-'', chr CHR ''.''] @ foldedLetters))],
     Description = ''Bearer token''\<rparr>,
    \<lparr>Pattern = seqs [lit ''-----BEGIN '',
                      opt (Alt (lit ''RSA '') (Alt (lit ''DSA '') (Alt (lit ''EC '') (lit ''OPENSSH '')))),
                      lit ''PRIVATE KEY-----''],
     Description = ''Private key''\<rparr>,
    \<lparr>Pattern = seqs [lit ''xox'',
                      Cls [chr CHR ''b'', chr CHR ''a'', chr CHR ''p'', chr CHR ''r'', chr CHR ''s''],
                      lit ''-'', repMin 10 (Cls (alnum @ [chr CHR ''-'']))],
     Description = ''Slack token''\<rparr>,
    \<lparr>Pattern = seqs [lit ''sk_live_'', repMin 24 (Cls alnum)],
     Description = ''Stripe secret key''\<rparr>,
    \<lparr>Pattern = seqs [lit ''rk_live_'', repMin 24 (Cls alnum)],
     Description = ''Stripe restricted key''\<rparr>,
    \<lparr>Pattern = seqs [lit ''SG.'', repMin 20 (Cls (alnum @ [chr CHR ''_'', chr CHR ''-''])),
                      lit ''.'', repMin 20 (Cls (alnum @ [chr CHR ''_'', chr CHR ''-'']))],
     Description = ''SendGrid API key''\<rparr>,
    \<lparr>Pattern = seqs [lit ''mongodb'', opt (lit ''+srv''), connStringTail],
     Description = ''MongoDB connection string''\<rparr>,
    \<lparr>Pattern = seqs [lit ''postgres'', opt (lit ''ql''), connStringTail],
     Description = ''PostgreSQL connection string''\<rparr>,
    \<lparr>Pattern = seqs [lit ''mysql'', connStringTail],
     Description = ''MySQL connection string''\<rparr>,
    \<lparr>Pattern = seqs [lit ''sk-ant-'', repMin 20 (Cls (alnum @ [chr CHR ''-'']))],
     Description = ''Anthropic API key''\<rparr>,
    \<lparr>Pattern = seqs [Cls [chr CHR ''M'', chr CHR ''N''], repMin 23 (Cls [upper, lower, digit]),
                      lit ''.'', rep 6 (Cls [upper, lower, digit, chr CHR ''_'', chr CHR ''-'']),
                      lit ''.'', rep 27 (Cls [upper, lower, digit, chr CHR ''_'', chr CHR ''-''])],
     Description = ''Discord bot token''\<rparr>,
    \<lparr>Pattern = seqs [lit ''npm_'', rep 36 (Cls alnum)],
     Description = ''npm access token''\<rparr>,
    \<lparr>Pattern = seqs [lit ''pypi-'', repMin 43 (Cls alnum)],
     Description = ''PyPI API token''\<rparr>,
    \<lparr>Pattern = seqs [lit ''SK'', rep 32 (Cls [rng CHR ''a'' CHR ''f'', rng CHR ''A'' CHR ''F'', digit])],
     Description = ''Twilio API key''\<rparr>,
    \<lparr>Pattern = seqs [lit ''key-'', rep 32 (Cls alnum)],
     Description = ''Mailgun API key''\<rparr>]"

section \<open>git.go: the command classifier\<close>

definition commandSeparatorRegex :: regex where
  \<comment> \<open>\<open>[;&|]+\<close>\<close>
  "commandSeparatorRegex = plus (Cls [chr CHR '';'', chr CHR ''&'', chr CHR ''|''])"

definition gitCommandRegex :: regex where
  \<comment> \<open>\<open>(?i)^(?:\S+[/\\])?git(?:\.exe)?\b\<close>\<close>
  "gitCommandRegex =
     seqs [BeginText, opt (Seq (plus (NCls perlSpace)) (Cls [chr CHR ''/'', chr (CHR 0x5C)])),
           ilit ''git'', opt (ilit ''.exe''), WordBoundary]"

definition commitWordRegex :: regex where
  \<comment> \<open>\<open>(?i)\bcommit\b\<close>\<close>
  "commitWordRegex = seqs [WordBoundary, ilit ''commit'', WordBoundary]"

text \<open>
  The loop of \<open>IsGitCommitCommand\<close> over the pieces of the command: the first piece that,
  trimmed, is not empty, starts as a git invocation and holds the word \<open>commit\<close> makes the
  answer true.
\<close>

definition isGitCommitSubcommand :: "string \<Rightarrow> bool" where
  "isGitCommitSubcommand subcommand \<longleftrightarrow>
     (let subcommand = TrimSpace subcommand in
      if subcommand = [] then False
      else if \<not> MatchString gitCommandRegex subcommand then False
      else MatchString commitWordRegex subcommand)"

definition IsGitCommitCommand :: "string \<Rightarrow> bool" where
  "IsGitCommitCommand command \<longleftrightarrow>
     list_ex isGitCommitSubcommand (Split commandSeparatorRegex command)"

section \<open>The file classifier\<close>

definition IsEnvFile :: "string \<Rightarrow> bool" where
  "IsEnvFile filePath \<longleftrightarrow>
     (let normalizedPath = ReplaceAll filePath (CHR 0x5C) CHR ''/'';
          parts = SplitOn CHR ''/'' normalizedPath;
          filename = last parts
      in if filename \<in> envFileNames then True
         else if HasPrefix filename ''.env.'' then True
         else False)"

definition IsBinaryFile :: "(rune \<Rightarrow> rune) \<Rightarrow> string \<Rightarrow> bool" where
  "IsBinaryFile uni filePath \<longleftrightarrow>
     (let lowerPath = ToLower uni filePath;
          ext = Ext lowerPath
      in if ext \<in> binaryExtensions then True
         else list_ex (\<lambda>compoundExt. HasSuffix lowerPath compoundExt) compoundBinaryExtensions)"

section \<open>env.go\<close>

text \<open>
  \<open>ParseEnvFile\<close> reads the file through a \<open>bufio.Scanner\<close>. The model takes what the
  scanner delivers: \<open>None\<close> when the file cannot be opened, otherwise the lines, in order,
  as \<open>scanner.Text()\<close> returns them. The body of the loop is \<open>parseEnvLine\<close>: the pair the
  line adds to the map, or \<open>None\<close> when the loop continues without adding one.
\<close>

definition stripQuotes :: "string \<Rightarrow> string" where
  "stripQuotes v =
     (if 2 \<le> length v then
        (let firstChar = hd v; lastChar = last v in
         if (firstChar = CHR 0x22 \<and> lastChar = CHR 0x22) \<or> (firstChar = CHR 0x27 \<and> lastChar = CHR 0x27)
         then take (length v - 2) (drop 1 v)
         else v)
      else v)"

definition parseEnvLine :: "string \<Rightarrow> (string \<times> string) option" where
  "parseEnvLine text =
     (let line = TrimSpace text in
      if line = [] \<or> HasPrefix line ''#'' then None
      else
        (case SplitN2 CHR ''='' line of
           [k, v] \<Rightarrow>
             (let key = TrimSpace k; v = stripQuotes (TrimSpace v) in
              if key \<noteq> [] \<and> v \<noteq> [] then Some (key, v) else None)
         | _ \<Rightarrow> None))"

fun parseEnvLines :: "string list \<Rightarrow> string gomap \<Rightarrow> string gomap" where
  "parseEnvLines [] envVars = envVars"
| "parseEnvLines (text # rest) envVars =
     (case parseEnvLine text of
        None \<Rightarrow> parseEnvLines rest envVars
      | Some (key, v) \<Rightarrow> parseEnvLines rest (AList.update key v envVars))"

definition ParseEnvFile :: "string list option \<Rightarrow> string gomap" where
  "ParseEnvFile file = (case file of None \<Rightarrow> [] | Some lines \<Rightarrow> parseEnvLines lines [])"

text \<open>\<open>isAllDigits\<close> ranges over the runes of the string.\<close>

definition isAllDigits :: "string \<Rightarrow> bool" where
  "isAllDigits s \<longleftrightarrow>
     (if length s = 0 then False
      else list_all (\<lambda>ch. \<not> (ch < 0x30 \<or> ch > 0x39)) (runes s))"

definition keepEnvValue :: "(rune \<Rightarrow> rune) \<Rightarrow> string \<Rightarrow> bool" where
  "keepEnvValue uni v \<longleftrightarrow>
     (if length v < MinSecretLength then False
      else if ToLower uni v \<in> skipValues then False
      else if isAllDigits v then False
      else True)"

definition FilterEnvValues :: "(rune \<Rightarrow> rune) \<Rightarrow> string gomap \<Rightarrow> string gomap" where
  "FilterEnvValues uni envVars = filter (\<lambda>(key, v). keepEnvValue uni v) envVars"

section \<open>git.go: the staged files\<close>

text \<open>
  The two git subprocesses are outside the program; their results are inputs. The argument
  of \<open>GetStagedFiles\<close> is the result of \<open>cmd.Output()\<close> for
  \<open>git diff --cached --name-only\<close>.
\<close>

definition GetStagedFiles :: "error + string \<Rightarrow> error + string list" where
  "GetStagedFiles output =
     (case output of
        Inl err \<Rightarrow> Inl err
      | Inr out \<Rightarrow> Inr (filter (\<lambda>line. line \<noteq> []) (map TrimSpace (SplitOn newline out))))"

section \<open>scanner.go\<close>

text \<open>
  The two guards of \<open>GetLineNumber\<close>, in the order of the source: a position beyond the
  content is set to its length, then a negative position is set to zero.
\<close>

definition clampPosition :: "string \<Rightarrow> int \<Rightarrow> int" where
  "clampPosition content position =
     (let position = (if position > int (length content) then int (length content) else position);
          position = (if position < 0 then 0 else position)
      in position)"

definition GetLineNumber :: "string \<Rightarrow> int \<Rightarrow> int" where
  "GetLineNumber content position =
     int (CountNewlines (take (nat (clampPosition content position)) content)) + 1"

text \<open>
  \<open>CompileEnvPatterns\<close> compiles \<open>`\b` + regexp.QuoteMeta(value) + `\b`\<close> for every entry.
  \<open>QuoteMeta\<close> escapes the metacharacters, so the pattern is the literal runes of the
  value between two word boundaries. \<open>regexp.MustCompile\<close> panics when the pattern text
  is not well-formed UTF-8; this is the result \<open>None\<close>.
\<close>

definition compileEnvPattern :: "string \<Rightarrow> regex" where
  "compileEnvPattern v = seqs [WordBoundary, litRunes (runes v), WordBoundary]"

definition CompileEnvPatterns :: "string gomap \<Rightarrow> regex gomap option" where
  "CompileEnvPatterns secretEnvValues =
     (if list_all (\<lambda>(key, v). ValidString v) secretEnvValues
      then Some (map (\<lambda>(key, v). (key, compileEnvPattern v)) secretEnvValues)
      else None)"

text \<open>\<open>%d\<close> of an \<open>int\<close>.\<close>

definition formatInt :: "int \<Rightarrow> string" where
  "formatInt n = (if n < 0 then CHR ''-'' # decimal (nat (- n)) else decimal (nat n))"

definition patternIssue :: "string \<Rightarrow> string \<Rightarrow> string \<Rightarrow> nat \<times> nat \<Rightarrow> string" where
  "patternIssue filePath content description match =
     (let start = fst match; lineNum = GetLineNumber content (int start)
      in filePath @ '':'' @ formatInt lineNum @ '' - Found potential '' @ description)"

definition envIssue :: "string \<Rightarrow> string \<Rightarrow> string \<Rightarrow> nat \<times> nat \<Rightarrow> string" where
  "envIssue filePath content key match =
     (let start = fst match; lineNum = GetLineNumber content (int start)
      in filePath @ '':'' @ formatInt lineNum @ '' - Found hardcoded value from .env key '' @ [CHR 0x27]
         @ key @ [CHR 0x27])"

text \<open>
  \<open>CheckFileForSecrets\<close>. The catalog is a slice and is visited in its order. \<open>envPatterns\<close>
  is a map: the argument lists its entries in the order in which this call's \<open>range\<close> loop
  visits them.
\<close>

definition CheckFileForSecrets :: "string \<Rightarrow> string \<Rightarrow> regex gomap \<Rightarrow> string list \<times> string list" where
  "CheckFileForSecrets filePath content envPatterns =
     (concat (map (\<lambda>pattern.
                 map (patternIssue filePath content (Description pattern))
                     (FindAllStringIndex (Pattern pattern) content))
               secretPatterns),
      concat (map (\<lambda>(key, pattern).
                 map (envIssue filePath content key) (FindAllStringIndex pattern content))
               envPatterns))"

section \<open>main.go\<close>

record hookSpecificOutput =
  HookEventName :: string
  PermissionDecision :: string
  PermissionDecisionReason :: string

text \<open>\<open>strings.Join(parts, "\n")\<close>.\<close>

fun JoinLines :: "string list \<Rightarrow> string" where
  "JoinLines [] = []"
| "JoinLines [l] = l"
| "JoinLines (l # ls) = l @ newline # JoinLines ls"

text \<open>
  \<open>buildDenyOutput\<close> up to the value it hands to \<open>json.Marshal\<close>; \<open>sort.Strings\<close> sorts
  by the byte-wise order of strings. \<open>reasonParts\<close> is the slice before it is joined.
\<close>

definition reasonParts :: "string list \<Rightarrow> string list \<Rightarrow> string list" where
  "reasonParts patternIssues envIssues =
     [''SECURITY WARNING: Potential secrets detected in staged files!'', []]
     @ (if 0 < length patternIssues
        then [''Pattern-based detections:''] @ map (\<lambda>issue. ''  - '' @ issue) (sort patternIssues) @ [[]]
        else [])
     @ (if 0 < length envIssues
        then [''Hardcoded .env values detected:''] @ map (\<lambda>issue. ''  - '' @ issue) (sort envIssues) @ [[]]
        else [])
     @ [''Please remove secrets before committing.'']
     @ (if 0 < length envIssues
        then [''Use environment variables at runtime instead of hardcoding values.'']
        else [])
     @ [''Consider using a secrets manager for sensitive credentials.'']"

definition buildDenyOutput :: "string list \<Rightarrow> string list \<Rightarrow> hookSpecificOutput" where
  "buildDenyOutput patternIssues envIssues =
     \<lparr>HookEventName = ''PreToolUse'',
      PermissionDecision = ''deny'',
      PermissionDecisionReason = JoinLines (reasonParts patternIssues envIssues)\<rparr>"

text \<open>
  What a run leaves behind: how the process ended (\<open>os.Exit(code)\<close>, or a panic, on which
  the Go runtime exits with status 2), the documents printed on standard output, the
  lines written to standard error, and the paths handed to \<open>CheckFileForSecrets\<close>.
\<close>

datatype ending = Exit int | Panic

record outcome =
  ending :: ending
  stdout :: "hookSpecificOutput list"
  stderr :: "string list"
  scanned :: "string list"

text \<open>
  The surroundings of a run: for a directory, the lines of its \<open>.env\<close> file as the scanner
  delivers them; the result of \<open>git diff --cached --name-only\<close>; and for a path the result
  of \<open>git show :path\<close>, which is what \<open>GetStagedContent\<close> returns.
\<close>

record world =
  envFile :: "string \<Rightarrow> string list option"
  stagedNames :: "error + string"
  GetStagedContent :: "string \<Rightarrow> error + string"

record scan =
  allPatternIssues :: "string list"
  allEnvIssues :: "string list"
  warnings :: "string list"
  checked :: "string list"

text \<open>
  The loop over the staged files. \<open>visit filePath\<close> is the order in which the \<open>range\<close> loop
  of \<open>CheckFileForSecrets\<close> visits the entries of \<open>envPatterns\<close> when it scans \<open>filePath\<close>.
\<close>

fun scanFiles ::
    "(rune \<Rightarrow> rune) \<Rightarrow> (string \<Rightarrow> regex gomap \<Rightarrow> regex gomap) \<Rightarrow> world \<Rightarrow> regex gomap
     \<Rightarrow> string list \<Rightarrow> scan \<Rightarrow> scan" where
  "scanFiles uni visit w envPatterns [] st = st"
| "scanFiles uni visit w envPatterns (filePath # rest) st =
     (if IsBinaryFile uni filePath then scanFiles uni visit w envPatterns rest st
      else if IsEnvFile filePath then scanFiles uni visit w envPatterns rest st
      else
        (case GetStagedContent w filePath of
           Inl err \<Rightarrow> scanFiles uni visit w envPatterns rest st
         | Inr content \<Rightarrow>
             if length content > MaxFileSize then
               scanFiles uni visit w envPatterns rest
                 (st\<lparr>warnings := warnings st @ [''Warning: Skipping oversized staged content '' @ filePath]\<rparr>)
             else if length content < 10 then scanFiles uni visit w envPatterns rest st
             else
               (case CheckFileForSecrets filePath content (visit filePath envPatterns) of
                  (patternIssues, envIssues) \<Rightarrow>
                    scanFiles uni visit w envPatterns rest
                      (st\<lparr>allPatternIssues := allPatternIssues st @ patternIssues,
                          allEnvIssues := allEnvIssues st @ envIssues,
                          checked := checked st @ [filePath]\<rparr>))))"

definition runSecretCheck ::
    "(rune \<Rightarrow> rune) \<Rightarrow> (string \<Rightarrow> regex gomap \<Rightarrow> regex gomap) \<Rightarrow> world \<Rightarrow> string \<Rightarrow> outcome" where
  "runSecretCheck uni visit w projectRoot =
     (let envVars = ParseEnvFile (envFile w projectRoot);
          secretEnvValues = FilterEnvValues uni envVars
      in case GetStagedFiles (stagedNames w) of
           Inl err \<Rightarrow>
             \<lparr>ending = Exit ExitBlocked, stdout = [],
              stderr = [''SECURITY: Failed to get staged files: '' @ err], scanned = []\<rparr>
         | Inr stagedFiles \<Rightarrow>
             if length stagedFiles = 0
             then \<lparr>ending = Exit ExitSuccess, stdout = [], stderr = [], scanned = []\<rparr>
             else
               (case CompileEnvPatterns secretEnvValues of
                  None \<Rightarrow> \<lparr>ending = Panic, stdout = [], stderr = [], scanned = []\<rparr>
                | Some envPatterns \<Rightarrow>
                    (let st = scanFiles uni visit w envPatterns (sort stagedFiles)
                                \<lparr>allPatternIssues = [], allEnvIssues = [], warnings = [], checked = []\<rparr>
                     in if 0 < length (allPatternIssues st) \<or> 0 < length (allEnvIssues st)
                        then \<lparr>ending = Exit ExitBlocked,
                              stdout = [buildDenyOutput (allPatternIssues st) (allEnvIssues st)],
                              stderr = warnings st, scanned = checked st\<rparr>
                        else \<lparr>ending = Exit ExitSuccess, stdout = [],
                              stderr = warnings st, scanned = checked st\<rparr>)))"

text \<open>
  \<open>main\<close>, after the JSON decoding of standard input. \<open>decoded\<close> is the result of decoding
  the input into \<open>HookInput\<close>: the tool name, and the result of unmarshalling \<open>tool_input\<close>
  into its \<open>command\<close> string. \<open>projectDir\<close> is the environment variable
  \<open>CLAUDE_PROJECT_DIR\<close>, \<open>getwd\<close> the result of \<open>os.Getwd()\<close> and \<open>chdir\<close> the error, if any,
  of \<open>os.Chdir\<close> for a directory.
\<close>

record process =
  decoded :: "error + string \<times> (error + string)"
  projectDir :: string
  getwd :: "error + string"
  chdir :: "string \<Rightarrow> error option"

definition silent :: "int \<Rightarrow> outcome" where
  "silent code = \<lparr>ending = Exit code, stdout = [], stderr = [], scanned = []\<rparr>"

definition failed :: "string \<Rightarrow> outcome" where
  "failed message = \<lparr>ending = Exit ExitBlocked, stdout = [], stderr = [message], scanned = []\<rparr>"

definition main ::
    "(rune \<Rightarrow> rune) \<Rightarrow> (string \<Rightarrow> regex gomap \<Rightarrow> regex gomap) \<Rightarrow> process \<Rightarrow> world \<Rightarrow> outcome" where
  "main uni visit p w =
     (case decoded p of
        Inl err \<Rightarrow> failed (''SECURITY: Hook failed to parse input: '' @ err)
      | Inr (toolName, toolInput) \<Rightarrow>
          if toolName \<noteq> ''Bash'' then silent ExitSuccess
          else
            (case toolInput of
               Inl err \<Rightarrow> silent ExitSuccess
             | Inr command \<Rightarrow>
                 if \<not> IsGitCommitCommand command then silent ExitSuccess
                 else if projectDir p = [] then
                   (case getwd p of
                      Inl err \<Rightarrow> failed (''SECURITY: Failed to get working directory: '' @ err)
                    | Inr projectRoot \<Rightarrow> runSecretCheck uni visit w projectRoot)
                 else
                   (case getwd p of
                      Inl err \<Rightarrow> failed (''SECURITY: Failed to get current directory: '' @ err)
                    | Inr originalCwd \<Rightarrow>
                        (case chdir p (projectDir p) of
                           Some err \<Rightarrow> failed (''SECURITY: Failed to change directory: '' @ err)
                         | None \<Rightarrow> runSecretCheck uni visit w (projectDir p)))))"

section \<open>Evaluation\<close>

text \<open>The equations by which the simplifier runs the model on a concrete input.\<close>

lemma funpow_numeral_unfold: "(f ^^ numeral n) x = f ((f ^^ pred_numeral n) x)"
  by (simp add: numeral_eq_Suc)

lemmas string_eval =
  byte_def between_def RuneError_def RuneStart_def DecodeLastRuneInString_def decodeAll.simps
  runes_def ValidString_def IsSpace_def TrimLeftSpace.simps TrimRightSpace.simps TrimSpace_def
  asciiLower_def char_of_eq_iff ToLower_def HasPrefix_def HasSuffix_def CountNewlines_def newline_def SplitN2_def
  ReplaceAll_def Ext_def Let_def

lemmas regex_eval =
  inRanges_def IsWordChar_def wordBefore_def wordAfter_def ends.simps(6) search.simps
  findAll.simps FindAllStringIndex_def MatchString_def Split_def rng_def chr_def seqs_def
  lit_def litRunes_def foldOrbit_def ilit_def opt_def plus_def rep_def repMin_def
  funpow_numeral_unfold perlSpace_def digit_def upper_def lower_def alnum_def
  foldedLetters_def connStringTail_def githubToken_def

lemmas git_eval =
  commandSeparatorRegex_def gitCommandRegex_def commitWordRegex_def isGitCommitSubcommand_def
  IsGitCommitCommand_def

section \<open>Properties\<close>

subsection \<open>The entry point\<close>

lemma runSecretCheck_staged_error:
  assumes "GetStagedFiles (stagedNames w) = Inl err"
  shows "runSecretCheck uni visit w projectRoot =
           \<lparr>ending = Exit ExitBlocked, stdout = [],
            stderr = [''SECURITY: Failed to get staged files: '' @ err], scanned = []\<rparr>"
  using assms by (simp add: runSecretCheck_def Let_def)

lemma main_blocked_or_check:
  assumes "decoded p = Inr (''Bash'', Inr command)" and "IsGitCommitCommand command"
  shows "(\<exists>message. main uni visit p w = failed message)
         \<or> (\<exists>projectRoot. main uni visit p w = runSecretCheck uni visit w projectRoot)"
  using assms by (auto simp: main_def split: sum.splits option.splits)

text \<open>
  Claim C1. In a run whose command is classified as a git commit (the tool is \<open>Bash\<close> and
  \<open>IsGitCommitCommand\<close> holds of its command), if \<open>GetStagedFiles\<close> returns an error then
  the process exits with \<open>ExitBlocked\<close>, which is 2 and differs from \<open>ExitSuccess\<close>; nothing
  is printed on standard output, so no decision at all is produced, and no file is handed
  to \<open>CheckFileForSecrets\<close>.
\<close>

theorem staged_list_failure_blocks:
  assumes "decoded p = Inr (''Bash'', Inr command)"
    and "IsGitCommitCommand command"
    and "GetStagedFiles (stagedNames w) = Inl err"
  shows "ending (main uni visit p w) = Exit ExitBlocked
         \<and> ExitBlocked = 2
         \<and> ending (main uni visit p w) \<noteq> Exit ExitSuccess
         \<and> stdout (main uni visit p w) = []
         \<and> scanned (main uni visit p w) = []"
proof -
  from main_blocked_or_check [OF assms(1,2), of uni visit w]
  consider message where "main uni visit p w = failed message"
    | projectRoot where "main uni visit p w = runSecretCheck uni visit w projectRoot"
    by blast
  then show ?thesis
  proof cases
    case 1
    then show ?thesis by (simp add: failed_def ExitBlocked_def ExitSuccess_def)
  next
    case 2
    with runSecretCheck_staged_error [OF assms(3), of uni visit projectRoot]
    show ?thesis by (simp add: ExitBlocked_def ExitSuccess_def)
  qed
qed

definition commitProcess :: process where
  "commitProcess =
     \<lparr>decoded = Inr (''Bash'', Inr ''git commit -m x''), projectDir = [],
      getwd = Inr ''/repo'', chdir = (\<lambda>d. None)\<rparr>"

definition brokenIndex :: world where
  "brokenIndex =
     \<lparr>envFile = (\<lambda>d. None), stagedNames = Inl ''exit status 128'',
      GetStagedContent = (\<lambda>path. Inl ''exit status 128'')\<rparr>"

lemma git_commit_classified: "IsGitCommitCommand ''git commit -m x''"
  by (simp add: git_eval regex_eval string_eval)

theorem staged_list_failure_blocks_witness:
  "ending (main id (\<lambda>path m. m) commitProcess brokenIndex) = Exit ExitBlocked
   \<and> ExitBlocked = 2
   \<and> ending (main id (\<lambda>path m. m) commitProcess brokenIndex) \<noteq> Exit ExitSuccess
   \<and> stdout (main id (\<lambda>path m. m) commitProcess brokenIndex) = []
   \<and> scanned (main id (\<lambda>path m. m) commitProcess brokenIndex) = []"
proof -
  have 1: "decoded commitProcess = Inr (''Bash'', Inr ''git commit -m x'')"
    by (simp add: commitProcess_def)
  have 3: "GetStagedFiles (stagedNames brokenIndex) = Inl ''exit status 128''"
    by (simp add: brokenIndex_def GetStagedFiles_def)
  show ?thesis
    by (rule staged_list_failure_blocks [OF 1 git_commit_classified 3])
qed

subsection \<open>The loop over the staged files\<close>


text \<open>A world with one staged path and its staged content, and no \<open>.env\<close> file.\<close>

definition oneFile :: "string \<Rightarrow> string \<Rightarrow> world" where
  "oneFile path content =
     \<lparr>envFile = (\<lambda>d. None), stagedNames = Inr (path @ [newline]),
      GetStagedContent = (\<lambda>p. if p = path then Inr content else Inl ''exit status 128'')\<rparr>"















subsection \<open>The environment values\<close>

lemma decodeAll_ascii:
  "byte c < 0x80 \<Longrightarrow> decodeAll (c # cs) = (byte c, 1) # decodeAll cs"
  by (subst decodeAll.simps) (simp add: Let_def)

lemma runes_all_digits:
  "list_all (\<lambda>c. between 0x30 0x39 (byte c)) s \<Longrightarrow> list_all (\<lambda>ch. \<not> (ch < 0x30 \<or> ch > 0x39)) (runes s)"
proof (induction s)
  case Nil
  then show ?case by (simp add: runes_def decodeAll.simps)
next
  case (Cons c cs)
  then have "byte c < 0x80" by (simp add: between_def)
  with Cons show ?case by (simp add: runes_def decodeAll_ascii between_def)
qed

lemma not_all_digits_has_other:
  assumes "\<not> isAllDigits v" and "v \<noteq> []"
  shows "\<exists>c \<in> set v. \<not> between 0x30 0x39 (byte c)"
proof (rule ccontr)
  assume "\<not> (\<exists>c \<in> set v. \<not> between 0x30 0x39 (byte c))"
  then have "list_all (\<lambda>c. between 0x30 0x39 (byte c)) v" by (simp add: list_all_iff)
  from runes_all_digits [OF this] assms show False by (simp add: isAllDigits_def)
qed

lemma skipValues_ascii: "s \<in> skipValues \<Longrightarrow> list_all (\<lambda>c. byte c < 0x80) s"
  by (auto simp: skipValues_def byte_def)

lemma skipValues_lowercase: "s \<in> skipValues \<Longrightarrow> map asciiLower s = s"
  by (auto simp: skipValues_def asciiLower_def between_def byte_def)

lemma asciiLower_keeps_high: "byte (asciiLower c) < 0x80 \<longleftrightarrow> byte c < 0x80"
  by (auto simp: asciiLower_def between_def byte_def)

lemma kept_value_not_skipped:
  assumes "ToLower uni v \<notin> skipValues"
  shows "map asciiLower v \<notin> skipValues"
proof
  assume in_skip: "map asciiLower v \<in> skipValues"
  from skipValues_ascii [OF this] have "list_all (\<lambda>c. byte c < 0x80) v"
    by (simp add: list_all_iff asciiLower_keeps_high)
  then have "ToLower uni v = map asciiLower v" by (simp add: ToLower_def)
  with assms in_skip show False by simp
qed

lemma keepEnvValue_properties:
  assumes "keepEnvValue uni v"
  shows "8 \<le> length v" "ToLower uni v \<notin> skipValues" "\<not> isAllDigits v"
  using assms by (auto simp: keepEnvValue_def MinSecretLength_def split: if_splits)

text \<open>
  Claim C4. Every value of the mapping that \<open>FilterEnvValues\<close> makes of the result of
  \<open>ParseEnvFile\<close> has at least 8 bytes; its lower-cased form is no member of \<open>skipValues\<close>,
  so the value equals no member when the case of letters is ignored; and it is not all
  digits: it holds a byte that is no digit.
\<close>

theorem filtered_values_look_secret:
  assumes "(key, v) \<in> set (FilterEnvValues uni (ParseEnvFile file))"
  shows "8 \<le> length v
       \<and> ToLower uni v \<notin> skipValues
       \<and> map asciiLower v \<notin> map asciiLower ` skipValues
       \<and> \<not> isAllDigits v
       \<and> (\<exists>c \<in> set v. \<not> between 0x30 0x39 (byte c))"
proof -
  from assms have keep: "keepEnvValue uni v" by (auto simp: FilterEnvValues_def)
  note k = keepEnvValue_properties [OF keep]
  from k(1) have "v \<noteq> []" by auto
  from not_all_digits_has_other [OF k(3) this]
  have other: "\<exists>c \<in> set v. \<not> between 0x30 0x39 (byte c)" .
  have "map asciiLower v \<noteq> map asciiLower s" if "s \<in> skipValues" for s
    using kept_value_not_skipped [OF k(2)] that skipValues_lowercase [OF that] by auto
  then have "map asciiLower v \<notin> map asciiLower ` skipValues" by blast
  with k other show ?thesis by blast
qed

definition sampleEnv :: "string list" where
  "sampleEnv = [''# settings'', ''API_KEY=sk_test_12345'', ''DEBUG=true'', ''PORT=12345678'',
                ''ENV=Production'']"

lemma sampleEnv_filtered:
  "FilterEnvValues id (ParseEnvFile (Some sampleEnv)) = [(''API_KEY'', ''sk_test_12345'')]"
  by (simp add: sampleEnv_def FilterEnvValues_def ParseEnvFile_def parseEnvLine_def
      stripQuotes_def keepEnvValue_def isAllDigits_def MinSecretLength_def skipValues_def string_eval)

theorem filtered_values_look_secret_witness:
  "8 \<le> length ''sk_test_12345''
   \<and> ToLower id ''sk_test_12345'' \<notin> skipValues
   \<and> map asciiLower ''sk_test_12345'' \<notin> map asciiLower ` skipValues
   \<and> \<not> isAllDigits ''sk_test_12345''
   \<and> (\<exists>c \<in> set ''sk_test_12345''. \<not> between 0x30 0x39 (byte c))"
proof -
  have "(''API_KEY'', ''sk_test_12345'') \<in> set (FilterEnvValues id (ParseEnvFile (Some sampleEnv)))"
    unfolding sampleEnv_filtered by simp
  then show ?thesis by (rule filtered_values_look_secret)
qed






subsection \<open>Reproducible reports\<close>

lemma mset_concat_map_cong:
  "mset xs = mset ys \<Longrightarrow> mset (concat (map f xs)) = mset (concat (map f ys))"
proof -
  assume eq: "mset xs = mset ys"
  have "mset (concat (map f zs)) = sum_mset (image_mset (\<lambda>z. mset (f z)) (mset zs))" for zs
    by (induction zs) simp_all
  with eq show ?thesis by simp
qed

lemma sort_cong_mset:
  fixes xs ys :: "string list"
  shows "mset xs = mset ys \<Longrightarrow> sort xs = sort ys"
  by (rule properties_for_sort) simp_all

lemma CheckFileForSecrets_visit_order:
  assumes "mset envPatterns' = mset envPatterns"
  shows "fst (CheckFileForSecrets filePath content envPatterns')
           = fst (CheckFileForSecrets filePath content envPatterns)"
    and "mset (snd (CheckFileForSecrets filePath content envPatterns'))
           = mset (snd (CheckFileForSecrets filePath content envPatterns))"
  using mset_concat_map_cong [OF assms] by (simp_all add: CheckFileForSecrets_def)

lemma buildDenyOutput_accumulation_order:
  assumes "mset patternIssues' = mset patternIssues" and "mset envIssues' = mset envIssues"
  shows "buildDenyOutput patternIssues' envIssues' = buildDenyOutput patternIssues envIssues"
proof -
  from assms have "length patternIssues' = length patternIssues" "length envIssues' = length envIssues"
    by (auto dest: mset_eq_length)
  moreover from assms have "sort patternIssues' = sort patternIssues" "sort envIssues' = sort envIssues"
    by (auto intro: sort_cong_mset)
  ultimately show ?thesis by (simp add: buildDenyOutput_def reasonParts_def)
qed

definition sameFindings :: "scan \<Rightarrow> scan \<Rightarrow> bool" where
  "sameFindings st' st \<longleftrightarrow>
     allPatternIssues st' = allPatternIssues st \<and> mset (allEnvIssues st') = mset (allEnvIssues st)
     \<and> warnings st' = warnings st \<and> checked st' = checked st"

lemma scanFiles_visit_order:
  assumes "\<And>p m. mset (visit p m) = mset m" and "\<And>p m. mset (visit' p m) = mset m"
  shows "sameFindings st' st \<Longrightarrow>
         sameFindings (scanFiles uni visit' w envPatterns files st') (scanFiles uni visit w envPatterns files st)"
proof (induction files arbitrary: st st')
  case Nil
  then show ?case by simp
next
  case (Cons filePath rest)
  note IH = Cons.IH
  show ?case
  proof (cases "IsBinaryFile uni filePath \<or> IsEnvFile filePath")
    case True
    with IH [OF Cons.prems] show ?thesis by auto
  next
    case skip: False
    show ?thesis
    proof (cases "GetStagedContent w filePath")
      case (Inl err)
      with skip IH [OF Cons.prems] show ?thesis by simp
    next
      case (Inr content)
      show ?thesis
      proof (cases "length content > MaxFileSize")
        case True
        let ?warn = "''Warning: Skipping oversized staged content '' @ filePath"
        from Cons.prems have "sameFindings (st'\<lparr>warnings := warnings st' @ [?warn]\<rparr>)
            (st\<lparr>warnings := warnings st @ [?warn]\<rparr>)"
          by (simp add: sameFindings_def)
        from IH [OF this] skip Inr True show ?thesis by simp
      next
        case fits: False
        show ?thesis
        proof (cases "length content < 10")
          case True
          with skip Inr fits IH [OF Cons.prems] show ?thesis by simp
        next
          case False
          obtain pis eis where r: "CheckFileForSecrets filePath content (visit filePath envPatterns) = (pis, eis)"
            by fastforce
          obtain pis' eis' where r': "CheckFileForSecrets filePath content (visit' filePath envPatterns) = (pis', eis')"
            by fastforce
          have "mset (visit' filePath envPatterns) = mset (visit filePath envPatterns)"
            by (simp add: assms)
          from CheckFileForSecrets_visit_order [OF this, of filePath content] r r'
          have "pis' = pis" "mset eis' = mset eis" by simp_all
          with Cons.prems
          have "sameFindings
                  (st'\<lparr>allPatternIssues := allPatternIssues st' @ pis',
                       allEnvIssues := allEnvIssues st' @ eis', checked := checked st' @ [filePath]\<rparr>)
                  (st\<lparr>allPatternIssues := allPatternIssues st @ pis,
                      allEnvIssues := allEnvIssues st @ eis, checked := checked st @ [filePath]\<rparr>)"
            by (simp add: sameFindings_def)
          from IH [OF this] skip Inr fits False r r' show ?thesis by simp
        qed
      qed
    qed
  qed
qed

lemma verdict_same_findings:
  assumes "sameFindings st' st"
  shows "(if 0 < length (allPatternIssues st') \<or> 0 < length (allEnvIssues st')
          then \<lparr>ending = Exit ExitBlocked,
                stdout = [buildDenyOutput (allPatternIssues st') (allEnvIssues st')],
                stderr = warnings st', scanned = checked st'\<rparr>
          else \<lparr>ending = Exit ExitSuccess, stdout = [], stderr = warnings st', scanned = checked st'\<rparr>)
       = (if 0 < length (allPatternIssues st) \<or> 0 < length (allEnvIssues st)
          then \<lparr>ending = Exit ExitBlocked,
                stdout = [buildDenyOutput (allPatternIssues st) (allEnvIssues st)],
                stderr = warnings st, scanned = checked st\<rparr>
          else \<lparr>ending = Exit ExitSuccess, stdout = [], stderr = warnings st, scanned = checked st\<rparr>)"
proof -
  from assms have a: "allPatternIssues st' = allPatternIssues st"
    and b: "mset (allEnvIssues st') = mset (allEnvIssues st)"
    and c: "warnings st' = warnings st" and d: "checked st' = checked st"
    by (simp_all add: sameFindings_def)
  from b have len: "length (allEnvIssues st') = length (allEnvIssues st)"
    by (rule mset_eq_length)
  have out: "buildDenyOutput (allPatternIssues st') (allEnvIssues st')
      = buildDenyOutput (allPatternIssues st) (allEnvIssues st)"
    by (rule buildDenyOutput_accumulation_order) (simp_all add: a b)
  show ?thesis unfolding a len c d out [unfolded a] ..
qed

lemma runSecretCheck_visit_order:
  assumes "\<And>p m. mset (visit p m) = mset m" and "\<And>p m. mset (visit' p m) = mset m"
  shows "runSecretCheck uni visit' w projectRoot = runSecretCheck uni visit w projectRoot"
proof -
  let ?init = "\<lparr>allPatternIssues = [], allEnvIssues = [], warnings = [], checked = []\<rparr>"
  have same: "sameFindings (scanFiles uni visit' w envPatterns files ?init)
                (scanFiles uni visit w envPatterns files ?init)" for envPatterns files
    by (rule scanFiles_visit_order [OF assms]) (simp add: sameFindings_def)
  show ?thesis
    unfolding runSecretCheck_def Let_def verdict_same_findings [OF same] ..
qed

text \<open>
  Claim C6. Runs over the same inputs give the same output, although Go does not fix the
  order in which a \<open>range\<close> loop visits the entries of the env-rule map. For the same path,
  content and env-rule mapping, visited in any two orders, \<open>CheckFileForSecrets\<close> returns
  the same pattern issues and the same env issues up to their order (the same issues, each
  as often). \<open>buildDenyOutput\<close> gives the same report for issue collections that differ
  only in the order of accumulation, because it sorts both. Hence two runs of
  \<open>runSecretCheck\<close> in the same surroundings end alike in every respect, whatever orders
  their \<open>range\<close> loops take.
\<close>

theorem same_inputs_same_report:
  "(\<forall>envPatterns'. mset envPatterns' = mset envPatterns \<longrightarrow>
      fst (CheckFileForSecrets filePath content envPatterns')
        = fst (CheckFileForSecrets filePath content envPatterns)
      \<and> mset (snd (CheckFileForSecrets filePath content envPatterns'))
        = mset (snd (CheckFileForSecrets filePath content envPatterns)))
   \<and> (\<forall>patternIssues' envIssues'.
        mset patternIssues' = mset patternIssues \<and> mset envIssues' = mset envIssues \<longrightarrow>
        buildDenyOutput patternIssues' envIssues' = buildDenyOutput patternIssues envIssues)
   \<and> ((\<forall>p m. mset (visit p m) = mset m) \<and> (\<forall>p m. mset (visit' p m) = mset m) \<longrightarrow>
        runSecretCheck uni visit' w projectRoot = runSecretCheck uni visit w projectRoot)"
  using CheckFileForSecrets_visit_order [of _ envPatterns filePath content]
    buildDenyOutput_accumulation_order [of _ patternIssues _ envIssues]
    runSecretCheck_visit_order [of visit visit' uni w projectRoot]
  by blast

definition hardcodedValues :: world where
  "hardcodedValues =
     \<lparr>envFile = (\<lambda>d. Some [''MY_SECRET_KEY=super_secret_value_12345678'',
                             ''DB_PASSWORD=correct-horse-battery'']),
      stagedNames = Inr (''app.py'' @ [newline]),
      GetStagedContent =
        (\<lambda>p. Inr (''key = super_secret_value_12345678'' @ [newline] @ ''pw = correct-horse-battery''))\<rparr>"

theorem same_inputs_same_report_witness:
  "fst (CheckFileForSecrets ''app.py'' ''pw = correct-horse-battery''
          [(''B'', compileEnvPattern ''correct-horse-battery''), (''A'', compileEnvPattern ''battery'')])
     = fst (CheckFileForSecrets ''app.py'' ''pw = correct-horse-battery''
          [(''A'', compileEnvPattern ''battery''), (''B'', compileEnvPattern ''correct-horse-battery'')])
   \<and> mset (snd (CheckFileForSecrets ''app.py'' ''pw = correct-horse-battery''
          [(''B'', compileEnvPattern ''correct-horse-battery''), (''A'', compileEnvPattern ''battery'')]))
     = mset (snd (CheckFileForSecrets ''app.py'' ''pw = correct-horse-battery''
          [(''A'', compileEnvPattern ''battery''), (''B'', compileEnvPattern ''correct-horse-battery'')]))
   \<and> buildDenyOutput [''b.py:2 - Found potential Private key'', ''a.py:1 - Found potential Slack token''] []
     = buildDenyOutput [''a.py:1 - Found potential Slack token'', ''b.py:2 - Found potential Private key''] []
   \<and> runSecretCheck id (\<lambda>p m. rev m) hardcodedValues ''/repo''
     = runSecretCheck id (\<lambda>p m. m) hardcodedValues ''/repo''"
proof -
  note t = same_inputs_same_report
    [of "[(''A'', compileEnvPattern ''battery''), (''B'', compileEnvPattern ''correct-horse-battery'')]"
      "''app.py''" "''pw = correct-horse-battery''"
      "[''a.py:1 - Found potential Slack token'', ''b.py:2 - Found potential Private key'']" "[]"
      "\<lambda>p m. m" "\<lambda>p m. rev m" id hardcodedValues "''/repo''"]
  have 1: "mset [(''B'', compileEnvPattern ''correct-horse-battery''), (''A'', compileEnvPattern ''battery'')]
         = mset [(''A'', compileEnvPattern ''battery''), (''B'', compileEnvPattern ''correct-horse-battery'')]"
    by (simp add: add_mset_commute)
  have 2: "mset [''b.py:2 - Found potential Private key'', ''a.py:1 - Found potential Slack token'']
         = mset [''a.py:1 - Found potential Slack token'', ''b.py:2 - Found potential Private key'']"
    by (simp add: add_mset_commute)
  have 3: "(\<forall>p m. mset ((\<lambda>(p::string) (m::regex gomap). m) p m) = mset m)
         \<and> (\<forall>p m. mset ((\<lambda>(p::string) (m::regex gomap). rev m) p m) = mset m)"
    by simp
  from t 1 2 3 show ?thesis by blast
qed

subsection \<open>The matches of a pattern\<close>

text \<open>
  Matches that do not overlap, in the order of the text: a match ends no later than the
  next one starts.
\<close>

fun nonOverlapping :: "(nat \<times> nat) list \<Rightarrow> bool" where
  "nonOverlapping [] \<longleftrightarrow> True"
| "nonOverlapping ((b, e) # ms) \<longleftrightarrow> b \<le> e \<and> list_all (\<lambda>(b', e'). e \<le> b') ms \<and> nonOverlapping ms"

text \<open>The least number of bytes a match of the pattern consumes.\<close>

fun minWidth :: "regex \<Rightarrow> nat" where
  "minWidth Eps = 0"
| "minWidth (Cls rs) = 1"
| "minWidth (NCls rs) = 1"
| "minWidth (Seq a b) = minWidth a + minWidth b"
| "minWidth (Alt a b) = min (minWidth a) (minWidth b)"
| "minWidth (Star a) = 0"
| "minWidth BeginText = 0"
| "minWidth WordBoundary = 0"

definition isMatch :: "regex \<Rightarrow> string \<Rightarrow> nat \<times> nat \<Rightarrow> bool" where
  "isMatch re s m \<longleftrightarrow> fst m \<le> snd m \<and> snd m \<le> length s \<and> snd m \<in> set (ends re s (fst m))"

lemma search_is_match:
  "search re s pos = Some (b, e) \<Longrightarrow> \<exists>es. ends re s b = e # es"
proof (induction re s pos rule: search.induct)
  case (1 re s p)
  show ?case
  proof (cases "ends re s p")
    case Nil
    with "1.prems" have "p < length s"
      and "search re s (p + snd (DecodeRuneInString (drop p s))) = Some (b, e)"
      by (auto simp: search.simps [of re s p] split: if_splits)
    with "1.IH" [OF Nil] show ?thesis by simp
  next
    case (Cons e' es)
    with "1.prems" show ?thesis by (simp add: search.simps [of re s p])
  qed
qed

lemma findAll_from:
  "list_all (\<lambda>m. pos \<le> fst m \<and> isMatch re s m) (findAll re s pos prev)
   \<and> nonOverlapping (findAll re s pos prev)"
proof (induction re s pos prev rule: findAll.induct)
  case (1 re s pos prev)
  show ?case
  proof (cases "length s < pos")
    case True
    then show ?thesis by (simp add: findAll.simps [of re s pos])
  next
    case inside: False
    show ?thesis
    proof (cases "search re s pos")
      case None
      with inside show ?thesis by (simp add: findAll.simps [of re s pos])
    next
      case (Some m)
      obtain b e where m: "m = (b, e)" by (cases m)
      from inside Some m search_bounds [of re s pos b e]
      have bounds: "pos \<le> b" "b \<le> e" "e \<le> length s" by simp_all
      from Some m search_is_match [of re s pos b e] have "e \<in> set (ends re s b)" by auto
      with bounds have match: "isMatch re s (b, e)" by (simp add: isMatch_def)
      show ?thesis
      proof (cases "e \<le> pos")
        case True
        define nxt where
          "nxt = (if pos < length s then pos + snd (DecodeRuneInString (drop pos s)) else length s + 1)"
        let ?rest = "findAll re s nxt (Some e)"
        from "1.IH"(1) [OF inside Some m [symmetric] True]
        have rest: "list_all (\<lambda>m. nxt \<le> fst m \<and> isMatch re s m) ?rest" "nonOverlapping ?rest"
          by (simp_all add: nxt_def)
        have "pos < nxt"
          using DecodeRuneInString_width [of "drop pos s"] inside by (auto simp: nxt_def)
        moreover from rest(1) have "\<forall>m \<in> set ?rest. nxt \<le> fst m" by (simp add: list_all_iff)
        ultimately have "\<forall>m \<in> set ?rest. e \<le> fst m \<and> pos \<le> fst m"
          using True by fastforce
        then have after: "list_all (\<lambda>(b', e'). e \<le> b') ?rest" "list_all (\<lambda>m. pos \<le> fst m) ?rest"
          by (auto simp: list_all_iff)
        have unfold: "findAll re s pos prev = (if Some b = prev then [] else [(b, e)]) @ ?rest"
          using inside Some m True by (simp add: findAll.simps [of re s pos] nxt_def)
        from bounds match rest after show ?thesis
          unfolding unfold by (simp add: list_all_iff)
      next
        case False
        let ?rest = "findAll re s e (Some e)"
        from "1.IH"(2) [OF inside Some m [symmetric] False]
        have rest: "list_all (\<lambda>m. e \<le> fst m \<and> isMatch re s m) ?rest" "nonOverlapping ?rest"
          by simp_all
        from rest(1) have "\<forall>m \<in> set ?rest. e \<le> fst m" by (simp add: list_all_iff)
        with False have "\<forall>m \<in> set ?rest. e \<le> fst m \<and> pos \<le> fst m" by fastforce
        then have after: "list_all (\<lambda>(b', e'). e \<le> b') ?rest" "list_all (\<lambda>m. pos \<le> fst m) ?rest"
          by (auto simp: list_all_iff)
        have unfold: "findAll re s pos prev = (b, e) # ?rest"
          using inside Some m False by (simp add: findAll.simps [of re s pos])
        from bounds match rest after show ?thesis
          unfolding unfold by (simp add: list_all_iff)
      qed
    qed
  qed
qed

lemma ends_minWidth: "i \<le> length s \<Longrightarrow> j \<in> set (ends re s i) \<Longrightarrow> i + minWidth re \<le> j"
proof (induction re s i arbitrary: j rule: ends.induct)
  case (2 rs s i)
  obtain r w where d: "DecodeRuneInString (drop i s) = (r, w)" by fastforce
  show ?case
  proof (cases "i < length s")
    case True
    with "2.prems" d have "j = i + w" by (cases "inRanges r rs") simp_all
    with True DecodeRuneInString_width [of "drop i s"] d show ?thesis by auto
  next
    case False
    with "2.prems" show ?thesis by simp
  qed
next
  case (3 rs s i)
  obtain r w where d: "DecodeRuneInString (drop i s) = (r, w)" by fastforce
  show ?case
  proof (cases "i < length s")
    case True
    with "3.prems" d have "j = i + w" by (cases "inRanges r rs") simp_all
    with True DecodeRuneInString_width [of "drop i s"] d show ?thesis by auto
  next
    case False
    with "3.prems" show ?thesis by simp
  qed
next
  case (4 a b s i)
  from "4.prems" obtain k where k: "k \<in> set (ends a s i)" "j \<in> set (ends b s k)" by auto
  from ends_bounds [OF "4.prems"(1) k(1)] have "k \<le> length s" by simp
  from "4.IH"(1) [OF "4.prems"(1) k(1)] "4.IH"(2) [OF k(1) this k(2)] show ?case by simp
next
  case (5 a b s i)
  from "5.prems" have "j \<in> set (ends a s i) \<or> j \<in> set (ends b s i)" by simp
  with "5.IH"(1) [OF "5.prems"(1), of j] "5.IH"(2) [OF "5.prems"(1), of j] show ?case by auto
next
  case (6 a s i)
  from ends_bounds [OF "6.prems"] show ?case by simp
qed (auto split: if_splits)

lemma catalog_matches_not_empty: "list_all (\<lambda>rule. 0 < minWidth (Pattern rule)) secretPatterns"
  by (simp add: secretPatterns_def regex_eval)

lemma GetLineNumber_at_start:
  "start \<le> length content \<Longrightarrow>
   GetLineNumber content (int start) = 1 + int (count_list (take start content) (CHR 0x0A))"
  by (simp add: GetLineNumber_def clampPosition_def CountNewlines_def newline_def)

text \<open>
  Claim C3. The pattern issues of \<open>CheckFileForSecrets\<close> are, rule by rule in the order of
  the catalog, one issue for each match that \<open>FindAllStringIndex\<close> finds for the rule in
  the content, and the issue of a match carries the line number 1 plus the number of
  newline bytes of the content before the start of the match. The matches of a rule do
  not overlap, and each is a non-empty match of the rule's pattern inside the content.
\<close>

theorem pattern_issues_per_match:
  "fst (CheckFileForSecrets filePath content envPatterns)
     = concat (map (\<lambda>rule.
                 map (\<lambda>m. filePath @ '':''
                          @ formatInt (1 + int (count_list (take (fst m) content) (CHR 0x0A)))
                          @ '' - Found potential '' @ Description rule)
                     (FindAllStringIndex (Pattern rule) content))
               secretPatterns)
   \<and> (\<forall>rule \<in> set secretPatterns.
        nonOverlapping (FindAllStringIndex (Pattern rule) content)
        \<and> list_all (\<lambda>m. fst m < snd m \<and> isMatch (Pattern rule) content m)
            (FindAllStringIndex (Pattern rule) content))"
proof -
  have spans: "list_all (\<lambda>m. isMatch re content m) (FindAllStringIndex re content)"
    and apart: "nonOverlapping (FindAllStringIndex re content)" for re
    using findAll_from [of 0 re content None] by (simp_all add: FindAllStringIndex_def list_all_iff)
  have eq: "map (patternIssue filePath content (Description rule)) (FindAllStringIndex (Pattern rule) content)
      = map (\<lambda>m. filePath @ '':''
                 @ formatInt (1 + int (count_list (take (fst m) content) (CHR 0x0A)))
                 @ '' - Found potential '' @ Description rule)
            (FindAllStringIndex (Pattern rule) content)" for rule
  proof (rule map_cong [OF refl])
    fix m assume "m \<in> set (FindAllStringIndex (Pattern rule) content)"
    with spans [of "Pattern rule"] have "fst m \<le> length content"
      by (auto simp: list_all_iff isMatch_def)
    then show "patternIssue filePath content (Description rule) m
        = filePath @ '':'' @ formatInt (1 + int (count_list (take (fst m) content) (CHR 0x0A)))
          @ '' - Found potential '' @ Description rule"
      by (simp add: patternIssue_def GetLineNumber_at_start)
  qed
  have issues: "fst (CheckFileForSecrets filePath content envPatterns)
     = concat (map (\<lambda>rule.
                 map (\<lambda>m. filePath @ '':''
                          @ formatInt (1 + int (count_list (take (fst m) content) (CHR 0x0A)))
                          @ '' - Found potential '' @ Description rule)
                     (FindAllStringIndex (Pattern rule) content))
               secretPatterns)"
    unfolding CheckFileForSecrets_def fst_conv eq ..
  have "fst m < snd m" if "rule \<in> set secretPatterns"
    and "m \<in> set (FindAllStringIndex (Pattern rule) content)" for rule m
  proof -
    from that(1) catalog_matches_not_empty have "0 < minWidth (Pattern rule)"
      by (simp add: list_all_iff)
    moreover from that(2) spans [of "Pattern rule"] have "isMatch (Pattern rule) content m"
      by (simp add: list_all_iff)
    then have "fst m + minWidth (Pattern rule) \<le> snd m"
      using ends_minWidth [of "fst m" content "snd m" "Pattern rule"] by (simp add: isMatch_def)
    ultimately show ?thesis by simp
  qed
  with spans have "list_all (\<lambda>m. fst m < snd m \<and> isMatch (Pattern rule) content m)
      (FindAllStringIndex (Pattern rule) content)" if "rule \<in> set secretPatterns" for rule
    using that by (simp add: list_all_iff)
  with issues apart show ?thesis by blast
qed

definition awsSample :: string where
  "awsSample = ''#'' @ [newline] @ ''AKIA2B3C4D5E6F7G8H9I''"

lemma awsSample_issues:
  "concat (map (\<lambda>rule.
                 map (\<lambda>m. ''aws.py'' @ '':''
                          @ formatInt (1 + int (count_list (take (fst m) awsSample) (CHR 0x0A)))
                          @ '' - Found potential '' @ Description rule)
                     (FindAllStringIndex (Pattern rule) awsSample))
               secretPatterns)
   = [''aws.py:2 - Found potential AWS Access Key ID'']"
  by (simp add: awsSample_def secretPatterns_def regex_eval string_eval formatInt_def decimal.simps)

lemma awsSample_matches:
  "FindAllStringIndex (Pattern (secretPatterns ! 2)) awsSample = [(2, 22)]"
  by (simp add: awsSample_def secretPatterns_def regex_eval string_eval)

theorem pattern_issues_per_match_witness:
  "fst (CheckFileForSecrets ''aws.py'' awsSample []) = [''aws.py:2 - Found potential AWS Access Key ID'']
   \<and> FindAllStringIndex (Pattern (secretPatterns ! 2)) awsSample = [(2, 22)]
   \<and> nonOverlapping [(2, 22)]
   \<and> isMatch (Pattern (secretPatterns ! 2)) awsSample (2, 22)"
proof -
  note t = pattern_issues_per_match [of "''aws.py''" awsSample "[]"]
  from t have issues: "fst (CheckFileForSecrets ''aws.py'' awsSample [])
      = [''aws.py:2 - Found potential AWS Access Key ID'']"
    unfolding awsSample_issues by (rule conjunct1)
  have "secretPatterns ! 2 \<in> set secretPatterns" by (simp add: secretPatterns_def)
  with t have "nonOverlapping (FindAllStringIndex (Pattern (secretPatterns ! 2)) awsSample)
      \<and> list_all (\<lambda>m. fst m < snd m \<and> isMatch (Pattern (secretPatterns ! 2)) awsSample m)
          (FindAllStringIndex (Pattern (secretPatterns ! 2)) awsSample)"
    by blast
  then have "nonOverlapping [(2, 22)] \<and> isMatch (Pattern (secretPatterns ! 2)) awsSample (2, 22)"
    unfolding awsSample_matches by simp
  with issues awsSample_matches show ?thesis by blast
qed

subsection \<open>The AWS access key scenario\<close>

lemma DecodeRuneInString_ascii: "byte c < 0x80 \<Longrightarrow> DecodeRuneInString (c # cs) = (byte c, 1)"
  by (simp add: Let_def)

lemma ends_Cls_ascii:
  assumes "byte c < 0x80"
  shows "ends (Cls rs) (pre @ c # post) (length pre)
           = (if inRanges (byte c) rs then [Suc (length pre)] else [])"
  using assms by (simp add: DecodeRuneInString_ascii)

lemma rep_Suc: "rep (Suc n) r = Seq r (rep n r)"
  by (simp add: rep_def)

lemma ends_rep_ascii:
  assumes "\<forall>c \<in> set k. byte c < 0x80 \<and> inRanges (byte c) rs"
  shows "ends (rep (length k) (Cls rs)) (pre @ k @ post) (length pre) = [length pre + length k]"
  using assms
proof (induction k arbitrary: pre)
  case Nil
  then show ?case by (simp add: rep_def)
next
  case (Cons c k)
  from Cons.prems have c: "byte c < 0x80" "inRanges (byte c) rs" by simp_all
  from Cons.prems have "\<forall>c \<in> set k. byte c < 0x80 \<and> inRanges (byte c) rs" by simp
  from Cons.IH [OF this, of "pre @ [c]"]
  have "ends (rep (length k) (Cls rs)) (pre @ c # k @ post) (Suc (length pre)) = [Suc (length pre) + length k]"
    by simp
  with ends_Cls_ascii [OF c(1), of rs pre "k @ post"] c(2) show ?case
    by (simp add: rep_Suc)
qed

lemma lit_Cons: "lit (c # w) = Seq (Cls [chr c]) (lit w)"
  by (simp add: lit_def seqs_def)

lemma ends_lit_ascii:
  assumes "\<forall>c \<in> set w. byte c < 0x80"
  shows "ends (lit w) (pre @ w @ post) (length pre) = [length pre + length w]"
  using assms
proof (induction w arbitrary: pre)
  case Nil
  then show ?case by (simp add: lit_def seqs_def)
next
  case (Cons c w)
  from Cons.prems have c: "byte c < 0x80" by simp
  from Cons.prems have "\<forall>c \<in> set w. byte c < 0x80" by simp
  from Cons.IH [OF this, of "pre @ [c]"]
  have "ends (lit w) (pre @ c # w @ post) (Suc (length pre)) = [Suc (length pre) + length w]"
    by simp
  with ends_Cls_ascii [OF c, of "[chr c]" pre "w @ post"] show ?case
    by (simp add: lit_Cons inRanges_def chr_def)
qed

lemma aws_rule: "secretPatterns ! 2
    = \<lparr>Pattern = seqs [lit ''AKIA'', rep 16 (Cls [digit, upper])], Description = ''AWS Access Key ID''\<rparr>"
  by (simp add: secretPatterns_def)

lemma aws_key_matches:
  assumes "length k = 16" and "\<forall>c \<in> set k. inRanges (byte c) [digit, upper]"
  shows "\<exists>rest. FindAllStringIndex (Pattern (secretPatterns ! 2)) (''AKIA'' @ k) = (0, 20) # rest"
proof -
  have "byte c < 0x80" if "inRanges (byte c) [digit, upper]" for c
    using that by (auto simp: inRanges_def digit_def upper_def rng_def byte_def)
  with assms(2) have k: "\<forall>c \<in> set k. byte c < 0x80 \<and> inRanges (byte c) [digit, upper]" by blast
  have l: "length ''AKIA'' = 4" by simp
  have "\<forall>c \<in> set ''AKIA''. byte c < 0x80" by (simp add: byte_def)
  from ends_lit_ascii [OF this, of "[]" k]
  have 1: "ends (lit ''AKIA'') (''AKIA'' @ k) 0 = [4]"
    unfolding l by simp
  from ends_rep_ascii [OF k, of "''AKIA''" "[]"]
  have 2: "ends (rep 16 (Cls [digit, upper])) (''AKIA'' @ k) 4 = [20]"
    unfolding l assms(1) by simp
  from 1 2 have "ends (Pattern (secretPatterns ! 2)) (''AKIA'' @ k) 0 = [20]"
    by (simp add: aws_rule seqs_def)
  then have "search (Pattern (secretPatterns ! 2)) (''AKIA'' @ k) 0 = Some (0, 20)"
    by (simp add: search.simps [of _ _ 0])
  then show ?thesis
    by (simp add: FindAllStringIndex_def findAll.simps [of _ _ 0])
qed

lemma aws_py_is_scannable: "\<not> IsBinaryFile uni ''aws.py'' \<and> \<not> IsEnvFile ''aws.py''"
  by (simp add: IsBinaryFile_def IsEnvFile_def binaryExtensions_def compoundBinaryExtensions_def
      envFileNames_def string_eval)

lemma aws_key_issue:
  assumes "length k = 16" and "\<forall>c \<in> set k. inRanges (byte c) [digit, upper]"
  shows "''aws.py:1 - Found potential AWS Access Key ID''
           \<in> set (fst (CheckFileForSecrets ''aws.py'' (''AKIA'' @ k) envPatterns))"
proof -
  from aws_key_matches [OF assms] obtain rest
    where m: "FindAllStringIndex (Pattern (secretPatterns ! 2)) (''AKIA'' @ k) = (0, 20) # rest" ..
  have "patternIssue ''aws.py'' (''AKIA'' @ k) (Description (secretPatterns ! 2)) (0, 20)
      = ''aws.py:1 - Found potential AWS Access Key ID''"
    by (simp add: patternIssue_def aws_rule GetLineNumber_def clampPosition_def CountNewlines_def
        formatInt_def decimal.simps char_of_eq_iff)
  moreover have "secretPatterns ! 2 \<in> set secretPatterns" by (simp add: secretPatterns_def)
  ultimately show ?thesis
    unfolding CheckFileForSecrets_def fst_conv set_concat set_map using m by force
qed

lemma line_in_reasonParts:
  assumes "issue \<in> set patternIssues"
  shows "''  - '' @ issue \<in> set (reasonParts patternIssues envIssues)"
proof -
  from assms have pos: "0 < length patternIssues" by (cases patternIssues) auto
  from assms have "issue \<in> set (sort patternIssues)" by simp
  then have "''  - '' @ issue \<in> set (map (\<lambda>issue. ''  - '' @ issue) (sort patternIssues))"
    unfolding set_map by (rule imageI)
  then show ?thesis
    unfolding reasonParts_def by (simp only: pos if_True set_append Un_iff) blast
qed

text \<open>
  Claim C8, as the code has it. The rule is \<open>AKIA[0-9A-Z]{16}\<close>: the sixteen characters
  after \<open>AKIA\<close> have to be digits or upper-case letters. For a run whose only staged file
  is \<open>aws.py\<close> with the content \<open>AKIA\<close> followed by sixteen such characters (the values taken
  from the project's \<open>.env\<close> file being well-formed UTF-8, as the environment file format
  requires), the process exits with \<open>ExitBlocked\<close> and prints one decision, which is
  \<open>deny\<close>; the lines of its reason hold the line
  \<open>  - aws.py:1 - Found potential AWS Access Key ID\<close>.
\<close>

theorem aws_key_is_denied:
  assumes "GetStagedFiles (stagedNames w) = Inr [''aws.py'']"
    and "GetStagedContent w ''aws.py'' = Inr (''AKIA'' @ k)"
    and "length k = 16"
    and "\<forall>c \<in> set k. inRanges (byte c) [digit, upper]"
    and "list_all (\<lambda>(key, v). ValidString v)
           (FilterEnvValues uni (ParseEnvFile (envFile w projectRoot)))"
  shows "ending (runSecretCheck uni visit w projectRoot) = Exit ExitBlocked
       \<and> (\<exists>out parts. stdout (runSecretCheck uni visit w projectRoot) = [out]
             \<and> PermissionDecision out = ''deny''
             \<and> PermissionDecisionReason out = JoinLines parts
             \<and> ''  - aws.py:1 - Found potential AWS Access Key ID'' \<in> set parts)"
proof -
  let ?init = "\<lparr>allPatternIssues = [], allEnvIssues = [], warnings = [], checked = []\<rparr>"
  obtain envPatterns where compiled:
    "CompileEnvPatterns (FilterEnvValues uni (ParseEnvFile (envFile w projectRoot))) = Some envPatterns"
    using assms(5) by (simp add: CompileEnvPatterns_def)
  obtain pis eis where found:
    "CheckFileForSecrets ''aws.py'' (''AKIA'' @ k) (visit ''aws.py'' envPatterns) = (pis, eis)"
    by fastforce
  from aws_key_issue [OF assms(3,4), of "visit ''aws.py'' envPatterns"] found
  have issue: "''aws.py:1 - Found potential AWS Access Key ID'' \<in> set pis" by simp
  then have nonempty: "0 < length pis" by (cases pis) auto
  have len: "\<not> length (''AKIA'' @ k) > MaxFileSize" "\<not> length (''AKIA'' @ k) < 10"
    using assms(3) by (simp_all add: MaxFileSize_def)
  have scan: "scanFiles uni visit w envPatterns (sort [''aws.py'']) ?init
      = \<lparr>allPatternIssues = pis, allEnvIssues = eis, warnings = [], checked = [''aws.py'']\<rparr>"
    using aws_py_is_scannable [of uni] assms(2) len found by simp
  have run: "runSecretCheck uni visit w projectRoot
      = \<lparr>ending = Exit ExitBlocked, stdout = [buildDenyOutput pis eis], stderr = [], scanned = [''aws.py'']\<rparr>"
    using assms(1) compiled scan nonempty by (simp add: runSecretCheck_def Let_def)
  from line_in_reasonParts [OF issue, of eis]
  have "PermissionDecision (buildDenyOutput pis eis) = ''deny''
      \<and> PermissionDecisionReason (buildDenyOutput pis eis) = JoinLines (reasonParts pis eis)
      \<and> ''  - aws.py:1 - Found potential AWS Access Key ID'' \<in> set (reasonParts pis eis)"
    by (simp add: buildDenyOutput_def)
  with run show ?thesis by auto
qed

definition awsKeyStaged :: world where
  "awsKeyStaged = oneFile ''aws.py'' (''AKIA'' @ ''2B3C4D5E6F7G8H9I'')"

theorem aws_key_is_denied_witness:
  "ending (runSecretCheck id (\<lambda>p m. m) awsKeyStaged ''/repo'') = Exit ExitBlocked
   \<and> (\<exists>out parts. stdout (runSecretCheck id (\<lambda>p m. m) awsKeyStaged ''/repo'') = [out]
         \<and> PermissionDecision out = ''deny''
         \<and> PermissionDecisionReason out = JoinLines parts
         \<and> ''  - aws.py:1 - Found potential AWS Access Key ID'' \<in> set parts)"
proof -
  have 1: "GetStagedFiles (stagedNames awsKeyStaged) = Inr [''aws.py'']"
    by (simp add: awsKeyStaged_def oneFile_def GetStagedFiles_def string_eval)
  have 2: "GetStagedContent awsKeyStaged ''aws.py'' = Inr (''AKIA'' @ ''2B3C4D5E6F7G8H9I'')"
    by (simp add: awsKeyStaged_def oneFile_def)
  have 3: "length ''2B3C4D5E6F7G8H9I'' = 16" by simp
  have 4: "\<forall>c \<in> set ''2B3C4D5E6F7G8H9I''. inRanges (byte c) [digit, upper]"
    by (simp add: inRanges_def digit_def upper_def rng_def byte_def)
  have 5: "list_all (\<lambda>(key, v). ValidString v)
             (FilterEnvValues id (ParseEnvFile (envFile awsKeyStaged ''/repo'')))"
    by (simp add: awsKeyStaged_def oneFile_def ParseEnvFile_def FilterEnvValues_def)
  show ?thesis by (rule aws_key_is_denied [OF 1 2 3 4 5])
qed

text \<open>
  The claim as the spec states it asks for sixteen alphanumeric characters. Sixteen
  lower-case letters are alphanumeric, yet no rule of the catalog matches
  \<open>AKIAabcdefghijklmnop\<close>: the file is scanned and the run ends with \<open>ExitSuccess\<close> and
  prints no decision.
\<close>

definition lowercaseKeyStaged :: world where
  "lowercaseKeyStaged = oneFile ''aws.py'' (''AKIA'' @ ''abcdefghijklmnop'')"

lemma lowercase_key_no_issue:
  "CheckFileForSecrets ''aws.py'' (''AKIA'' @ ''abcdefghijklmnop'') [] = ([], [])"
  by (simp add: CheckFileForSecrets_def secretPatterns_def regex_eval string_eval)

theorem aws_key_lowercase_counterexample:
  "GetStagedFiles (stagedNames lowercaseKeyStaged) = Inr [''aws.py'']
   \<and> GetStagedContent lowercaseKeyStaged ''aws.py'' = Inr (''AKIA'' @ ''abcdefghijklmnop'')
   \<and> length ''abcdefghijklmnop'' = 16
   \<and> runSecretCheck id (\<lambda>p m. m) lowercaseKeyStaged ''/repo''
       = \<lparr>ending = Exit ExitSuccess, stdout = [], stderr = [], scanned = [''aws.py'']\<rparr>"
proof -
  have 1: "GetStagedFiles (stagedNames lowercaseKeyStaged) = Inr [''aws.py'']"
    by (simp add: lowercaseKeyStaged_def oneFile_def GetStagedFiles_def string_eval)
  have 2: "GetStagedContent lowercaseKeyStaged ''aws.py'' = Inr (''AKIA'' @ ''abcdefghijklmnop'')"
    by (simp add: lowercaseKeyStaged_def oneFile_def)
  have 3: "CompileEnvPatterns (FilterEnvValues id (ParseEnvFile (envFile lowercaseKeyStaged ''/repo''))) = Some []"
    by (simp add: lowercaseKeyStaged_def oneFile_def ParseEnvFile_def FilterEnvValues_def
        CompileEnvPatterns_def)
  have 4: "scanFiles id (\<lambda>p m. m) lowercaseKeyStaged [] (sort [''aws.py''])
             \<lparr>allPatternIssues = [], allEnvIssues = [], warnings = [], checked = []\<rparr>
           = \<lparr>allPatternIssues = [], allEnvIssues = [], warnings = [], checked = [''aws.py'']\<rparr>"
    using aws_py_is_scannable [of id] 2 lowercase_key_no_issue by (simp add: MaxFileSize_def)
  from 1 3 4 have "runSecretCheck id (\<lambda>p m. m) lowercaseKeyStaged ''/repo''
       = \<lparr>ending = Exit ExitSuccess, stdout = [], stderr = [], scanned = [''aws.py'']\<rparr>"
    by (simp add: runSecretCheck_def Let_def)
  with 1 2 show ?thesis by simp
qed

subsection \<open>The command classifier\<close>

text \<open>Runes and bytes: an ASCII byte is always the first byte of a rune.\<close>

lemma mod_window: "k * d \<le> (n::nat) \<Longrightarrow> n < k * d + d \<Longrightarrow> n mod d = n - k * d"
proof -
  assume a: "k * d \<le> n" "n < k * d + d"
  then have "n = (n - k * d) + k * d" by simp
  then have "n mod d = (n - k * d) mod d" by (metis mod_mult_self1)
  with a show ?thesis by simp
qed

lemma rune2_high: "0xC2 \<le> (n::nat) \<Longrightarrow> n < 0xE0 \<Longrightarrow> 0x80 \<le> (n mod 0x20) * 0x40 + x"
  using mod_window [of 6 "0x20" n] by simp

lemma rune3_high:
  "0xE0 \<le> (n::nat) \<Longrightarrow> n < 0xF0 \<Longrightarrow> (if n = 0xE0 then 0xA0 else 0x80) \<le> b \<Longrightarrow> b \<le> 0xBF
   \<Longrightarrow> 0x80 \<le> (n mod 0x10) * 0x1000 + (b mod 0x40) * 0x40 + x"
  using mod_window [of 14 "0x10" n] mod_window [of 2 "0x40" b] by (simp split: if_splits)

lemma rune4_high:
  "0xF0 \<le> (n::nat) \<Longrightarrow> n \<le> 0xF4 \<Longrightarrow> (if n = 0xF0 then 0x90 else 0x80) \<le> b \<Longrightarrow> b \<le> 0xBF
   \<Longrightarrow> 0x80 \<le> (n mod 0x08) * 0x40000 + (b mod 0x40) * 0x1000 + x + y"
  using mod_window [of 30 "0x08" n] mod_window [of 2 "0x40" b] by (simp split: if_splits)

lemma DecodeRuneInString_high:
  assumes "\<not> byte c < 0x80" and "DecodeRuneInString (c # cs) = (r, w)"
  shows "0x80 \<le> r \<and> 0 < w \<and> w \<le> Suc (length cs) \<and> (\<forall>k < w - 1. \<not> byte (cs ! k) < 0x80)"
proof (cases "byte c < 0xC2 \<or> 0xF4 < byte c")
  case True
  with assms show ?thesis by (auto simp: Let_def RuneError_def)
next
  case lead: False
  show ?thesis
  proof (cases "byte c < 0xE0")
    case True
    show ?thesis
    proof (cases cs)
      case Nil
      with assms lead True show ?thesis by (simp add: Let_def RuneError_def)
    next
      case (Cons c1 cs1)
      with assms lead True rune2_high [of "byte c" "byte c1 mod 0x40"] show ?thesis
        by (cases "between 0x80 0xBF (byte c1)") (auto simp: Let_def RuneError_def between_def)
    qed
  next
    case not2: False
    show ?thesis
    proof (cases "byte c < 0xF0")
      case True
      show ?thesis
      proof (cases cs)
        case Nil
        with assms lead not2 True show ?thesis by (simp add: Let_def RuneError_def)
      next
        case c1: (Cons c1 cs1)
        show ?thesis
        proof (cases cs1)
          case Nil
          with assms lead not2 True c1 show ?thesis by (simp add: Let_def RuneError_def)
        next
          case (Cons c2 cs2)
          show ?thesis
          proof (cases "between (if byte c = 0xE0 then 0xA0 else 0x80) (if byte c = 0xED then 0x9F else 0xBF) (byte c1)
                \<and> between 0x80 0xBF (byte c2)")
            case False
            from assms lead not2 True c1 Cons show ?thesis
              by (simp add: Let_def RuneError_def if_not_P [OF False])
          next
            case ok: True
            then have b1: "(if byte c = 0xE0 then 0xA0 else 0x80) \<le> byte c1" "byte c1 \<le> 0xBF" "0x80 \<le> byte c1"
              and b2: "0x80 \<le> byte c2"
              by (auto simp: between_def split: if_splits)
            from assms lead not2 True c1 Cons ok
            have rw: "r = (byte c mod 0x10) * 0x1000 + (byte c1 mod 0x40) * 0x40 + byte c2 mod 0x40" "w = 3"
              by (simp_all add: Let_def)
            from not2 True b1 rune3_high [of "byte c" "byte c1" "byte c2 mod 0x40"]
            have "0x80 \<le> r" unfolding rw by simp
            moreover have "\<forall>k < w - 1. \<not> byte (cs ! k) < 0x80"
              using b1 b2 c1 Cons rw by (auto simp: less_Suc_eq numeral_2_eq_2 nth_Cons')
            ultimately show ?thesis using rw c1 Cons by simp
          qed
        qed
      qed
    next
      case lead4: False
      show ?thesis
      proof (cases cs)
        case Nil
        with assms lead not2 lead4 show ?thesis by (simp add: Let_def RuneError_def)
      next
        case c1: (Cons c1 cs1)
        show ?thesis
        proof (cases cs1)
          case Nil
          with assms lead not2 lead4 c1 show ?thesis by (simp add: Let_def RuneError_def)
        next
          case c2: (Cons c2 cs2)
          show ?thesis
          proof (cases cs2)
            case Nil
            with assms lead not2 lead4 c1 c2 show ?thesis by (simp add: Let_def RuneError_def)
          next
            case (Cons c3 cs3)
            show ?thesis
            proof (cases "between (if byte c = 0xF0 then 0x90 else 0x80) (if byte c = 0xF4 then 0x8F else 0xBF) (byte c1)
                  \<and> between 0x80 0xBF (byte c2) \<and> between 0x80 0xBF (byte c3)")
              case False
              from assms lead not2 lead4 c1 c2 Cons show ?thesis
                by (simp add: Let_def RuneError_def if_not_P [OF False])
            next
              case ok: True
              then have b1: "(if byte c = 0xF0 then 0x90 else 0x80) \<le> byte c1" "byte c1 \<le> 0xBF" "0x80 \<le> byte c1"
                and b2: "0x80 \<le> byte c2" and b3: "0x80 \<le> byte c3"
                by (auto simp: between_def split: if_splits)
              from assms lead not2 lead4 c1 c2 Cons ok
              have rw: "r = (byte c mod 0x08) * 0x40000 + (byte c1 mod 0x40) * 0x1000
                          + (byte c2 mod 0x40) * 0x40 + byte c3 mod 0x40" "w = 4"
                by (simp_all add: Let_def)
              from lead not2 lead4 b1
                rune4_high [of "byte c" "byte c1" "(byte c2 mod 0x40) * 0x40" "byte c3 mod 0x40"]
              have "0x80 \<le> r" unfolding rw by simp
              moreover have "\<forall>k < w - 1. \<not> byte (cs ! k) < 0x80"
                using b1 b2 b3 c1 c2 Cons rw by (auto simp: less_Suc_eq numeral_3_eq_3 nth_Cons')
              ultimately show ?thesis using rw c1 c2 Cons by simp
            qed
          qed
        qed
      qed
    qed
  qed
qed

text \<open>
  The width of the rune at byte \<open>i\<close>: it is positive, stays inside the string, and the
  bytes it covers after the first are not ASCII.
\<close>

lemma stride:
  assumes "i < length s"
  shows "0 < snd (DecodeRuneInString (drop i s))
       \<and> i + snd (DecodeRuneInString (drop i s)) \<le> length s
       \<and> (\<forall>k. i < k \<and> k < i + snd (DecodeRuneInString (drop i s)) \<longrightarrow> \<not> byte (s ! k) < 0x80)"
proof -
  from assms have d: "drop i s = s ! i # drop (Suc i) s" by (simp add: Cons_nth_drop_Suc)
  show ?thesis
  proof (cases "byte (s ! i) < 0x80")
    case True
    with d assms show ?thesis by (simp add: DecodeRuneInString_ascii)
  next
    case False
    obtain r w where rw: "DecodeRuneInString (s ! i # drop (Suc i) s) = (r, w)" by fastforce
    from DecodeRuneInString_high [OF False rw] assms
    have w: "0 < w" "w \<le> Suc (length s - Suc i)"
      and hi: "\<forall>k < w - 1. \<not> byte (drop (Suc i) s ! k) < 0x80"
      by simp_all
    have "\<not> byte (s ! k) < 0x80" if "i < k" "k < i + w" for k
    proof -
      from that have "k - Suc i < w - 1" by simp
      with hi have "\<not> byte (drop (Suc i) s ! (k - Suc i)) < 0x80" by blast
      moreover from that w assms have "drop (Suc i) s ! (k - Suc i) = s ! k" by simp
      ultimately show ?thesis by simp
    qed
    with w assms d rw show ?thesis by auto
  qed
qed

definition asciiClass :: "(rune \<times> rune) list \<Rightarrow> bool" where
  "asciiClass C \<longleftrightarrow> (\<forall>r. inRanges r C \<longrightarrow> r < 0x80)"

definition byteIn :: "(rune \<times> rune) list \<Rightarrow> char \<Rightarrow> bool" where
  "byteIn C c \<longleftrightarrow> inRanges (byte c) C"

lemma byteIn_ascii: "asciiClass C \<Longrightarrow> byteIn C c \<Longrightarrow> byte c < 0x80"
  by (simp add: asciiClass_def byteIn_def)

lemma rune_at:
  assumes "asciiClass C" and "i < length s"
  shows "inRanges (fst (DecodeRuneInString (drop i s))) C \<longleftrightarrow> byteIn C (s ! i)"
proof -
  from assms have d: "drop i s = s ! i # drop (Suc i) s" by (simp add: Cons_nth_drop_Suc)
  show ?thesis
  proof (cases "byte (s ! i) < 0x80")
    case True
    with d show ?thesis by (simp add: DecodeRuneInString_ascii byteIn_def)
  next
    case False
    obtain r w where rw: "DecodeRuneInString (s ! i # drop (Suc i) s) = (r, w)" by fastforce
    from DecodeRuneInString_high [OF False rw] have "\<not> r < 0x80" by simp
    with assms(1) have "\<not> inRanges r C" by (auto simp: asciiClass_def)
    moreover from False assms(1) have "\<not> byteIn C (s ! i)" by (auto dest: byteIn_ascii)
    ultimately show ?thesis using d rw by simp
  qed
qed

lemma ends_Cls_byte:
  assumes "asciiClass C" and "i < length s"
  shows "ends (Cls C) s i = (if byteIn C (s ! i) then [Suc i] else [])"
proof -
  obtain r w where rw: "DecodeRuneInString (drop i s) = (r, w)" by fastforce
  from rune_at [OF assms] rw have r: "inRanges r C \<longleftrightarrow> byteIn C (s ! i)" by simp
  show ?thesis
  proof (cases "byteIn C (s ! i)")
    case True
    from byteIn_ascii [OF assms(1) True] assms(2) rw have "w = 1"
      by (simp add: Cons_nth_drop_Suc [symmetric] DecodeRuneInString_ascii)
    with True r rw assms(2) show ?thesis by simp
  next
    case False
    with r rw assms(2) show ?thesis by simp
  qed
qed

lemma ends_NCls_byte:
  assumes "asciiClass C" and "i < length s"
  shows "ends (NCls C) s i
           = (if byteIn C (s ! i) then [] else [i + snd (DecodeRuneInString (drop i s))])"
proof -
  obtain r w where rw: "DecodeRuneInString (drop i s) = (r, w)" by fastforce
  from rune_at [OF assms] rw have r: "inRanges r C \<longleftrightarrow> byteIn C (s ! i)" by simp
  with rw assms(2) show ?thesis by (cases "byteIn C (s ! i)") simp_all
qed

text \<open>
  Repetition of a negated ASCII class: the matcher gets from byte \<open>i\<close> to an ASCII byte (or
  the end) at \<open>j\<close> exactly when no byte between them is in the class.
\<close>

lemma star_NCls_reach:
  assumes "asciiClass C" and "j \<le> length s" and "j = length s \<or> byte (s ! j) < 0x80"
  shows "i \<le> j \<Longrightarrow>
         j \<in> set (ends (Star (NCls C)) s i) \<longleftrightarrow> (\<forall>k. i \<le> k \<and> k < j \<longrightarrow> \<not> byteIn C (s ! k))"
proof (induction "j - i" arbitrary: i rule: less_induct)
  case less
  show ?case
  proof (cases "i = j")
    case True
    have "j \<in> set (ends (Star (NCls C)) s j)"
      by (subst ends.simps(6)) (simp del: ends.simps(2,3))
    with True show ?thesis by auto
  next
    case False
    with less.prems assms(2) have lt: "i < j" "i < length s" by simp_all
    let ?w = "snd (DecodeRuneInString (drop i s))"
    from stride [OF lt(2)] have w: "0 < ?w" "i + ?w \<le> length s"
      and hi: "\<forall>k. i < k \<and> k < i + ?w \<longrightarrow> \<not> byte (s ! k) < 0x80"
      by simp_all
    show ?thesis
    proof (cases "byteIn C (s ! i)")
      case True
      then have "ends (Star (NCls C)) s i = [i]"
        by (subst ends.simps(6)) (simp add: ends_NCls_byte [OF assms(1) lt(2)] del: ends.simps(2,3))
      with lt False True show ?thesis by auto
    next
      case notin: False
      have step: "i + ?w \<le> j"
      proof (rule ccontr)
        assume "\<not> i + ?w \<le> j"
        with lt hi have "\<not> byte (s ! j) < 0x80" by simp
        with assms(3) \<open>\<not> i + ?w \<le> j\<close> w show False by simp
      qed
      have "ends (Star (NCls C)) s i = ends (Star (NCls C)) s (i + ?w) @ [i]"
        using notin w
        by (subst ends.simps(6)) (simp add: ends_NCls_byte [OF assms(1) lt(2)] del: ends.simps(2,3))
      with False
      have "j \<in> set (ends (Star (NCls C)) s i) \<longleftrightarrow> j \<in> set (ends (Star (NCls C)) s (i + ?w))"
        by simp
      also from w lt step have "j - (i + ?w) < j - i" by simp
      from less.hyps [OF this step]
      have "j \<in> set (ends (Star (NCls C)) s (i + ?w))
            \<longleftrightarrow> (\<forall>k. i + ?w \<le> k \<and> k < j \<longrightarrow> \<not> byteIn C (s ! k))" .
      also have "\<dots> \<longleftrightarrow> (\<forall>k. i \<le> k \<and> k < j \<longrightarrow> \<not> byteIn C (s ! k))"
      proof
        assume r: "\<forall>k. i + ?w \<le> k \<and> k < j \<longrightarrow> \<not> byteIn C (s ! k)"
        show "\<forall>k. i \<le> k \<and> k < j \<longrightarrow> \<not> byteIn C (s ! k)"
        proof (intro allI impI)
          fix k assume k: "i \<le> k \<and> k < j"
          show "\<not> byteIn C (s ! k)"
          proof (cases "k = i")
            case True
            with notin show ?thesis by simp
          next
            case False
            show ?thesis
            proof (cases "k < i + ?w")
              case True
              with False k hi have "\<not> byte (s ! k) < 0x80" by simp
              with assms(1) show ?thesis by (auto dest: byteIn_ascii)
            next
              case False
              with r k show ?thesis by simp
            qed
          qed
        qed
      next
        assume "\<forall>k. i \<le> k \<and> k < j \<longrightarrow> \<not> byteIn C (s ! k)"
        then show "\<forall>k. i + ?w \<le> k \<and> k < j \<longrightarrow> \<not> byteIn C (s ! k)" by simp
      qed
      finally show ?thesis .
    qed
  qed
qed

lemma plus_NCls_reach:
  assumes "asciiClass C" and "j < length s" and "byte (s ! j) < 0x80" and "i \<le> j"
  shows "j \<in> set (ends (plus (NCls C)) s i)
           \<longleftrightarrow> i < j \<and> (\<forall>k. i \<le> k \<and> k < j \<longrightarrow> \<not> byteIn C (s ! k))"
proof -
  from assms have i: "i < length s" by simp
  let ?w = "snd (DecodeRuneInString (drop i s))"
  from stride [OF i] have w: "0 < ?w" "i + ?w \<le> length s"
    and hi: "\<forall>k. i < k \<and> k < i + ?w \<longrightarrow> \<not> byte (s ! k) < 0x80"
    by simp_all
  show ?thesis
  proof (cases "byteIn C (s ! i)")
    case True
    then have "ends (plus (NCls C)) s i = []"
      by (simp add: plus_def ends_NCls_byte [OF assms(1) i] del: ends.simps(2,3))
    with assms(4) True show ?thesis by auto
  next
    case notin: False
    then have "ends (plus (NCls C)) s i = ends (Star (NCls C)) s (i + ?w)"
      by (simp add: plus_def ends_NCls_byte [OF assms(1) i] del: ends.simps(2,3))
    then have e: "set (ends (plus (NCls C)) s i) = set (ends (Star (NCls C)) s (i + ?w))"
      by simp
    show ?thesis
    proof (cases "i + ?w \<le> j")
      case True
      from star_NCls_reach [OF assms(1) _ _ True] assms(2,3)
      have "j \<in> set (ends (Star (NCls C)) s (i + ?w))
            \<longleftrightarrow> (\<forall>k. i + ?w \<le> k \<and> k < j \<longrightarrow> \<not> byteIn C (s ! k))" by simp
      moreover have "(\<forall>k. i + ?w \<le> k \<and> k < j \<longrightarrow> \<not> byteIn C (s ! k))
            \<longleftrightarrow> (\<forall>k. i \<le> k \<and> k < j \<longrightarrow> \<not> byteIn C (s ! k))"
      proof
        assume r: "\<forall>k. i + ?w \<le> k \<and> k < j \<longrightarrow> \<not> byteIn C (s ! k)"
        show "\<forall>k. i \<le> k \<and> k < j \<longrightarrow> \<not> byteIn C (s ! k)"
        proof (intro allI impI)
          fix k assume k: "i \<le> k \<and> k < j"
          show "\<not> byteIn C (s ! k)"
          proof (cases "k = i")
            case True
            with notin show ?thesis by simp
          next
            case False
            show ?thesis
            proof (cases "k < i + ?w")
              case True
              with False k hi have "\<not> byte (s ! k) < 0x80" by simp
              with assms(1) show ?thesis by (auto dest: byteIn_ascii)
            next
              case False
              with r k show ?thesis by simp
            qed
          qed
        qed
      next
        assume "\<forall>k. i \<le> k \<and> k < j \<longrightarrow> \<not> byteIn C (s ! k)"
        then show "\<forall>k. i + ?w \<le> k \<and> k < j \<longrightarrow> \<not> byteIn C (s ! k)" by simp
      qed
      moreover from True w have "i < j" by simp
      ultimately show ?thesis using e by simp
    next
      case False
      have "j \<notin> set (ends (Star (NCls C)) s (i + ?w))"
        using ends_bounds [OF w(2), of j "Star (NCls C)"] False by auto
      moreover have "\<not> i < j"
      proof
        assume "i < j"
        with False hi have "\<not> byte (s ! j) < 0x80" by simp
        with assms(3) show False by simp
      qed
      ultimately show ?thesis using e by simp
    qed
  qed
qed

text \<open>Greedy repetition of an ASCII class: the preferred end is the end of the run.\<close>

lemma star_Cls_run:
  assumes "asciiClass C"
  shows "i \<le> length s \<Longrightarrow>
         \<exists>others. ends (Star (Cls C)) s i = (i + length (takeWhile (byteIn C) (drop i s))) # others"
proof (induction "length s - i" arbitrary: i rule: less_induct)
  case less
  show ?case
  proof (cases "i < length s \<and> byteIn C (s ! i)")
    case True
    then have i: "i < length s" and inC: "byteIn C (s ! i)" by simp_all
    from i have "length s - Suc i < length s - i" "Suc i \<le> length s" by simp_all
    from less.hyps [OF this] obtain others
      where IH: "ends (Star (Cls C)) s (Suc i)
                   = (Suc i + length (takeWhile (byteIn C) (drop (Suc i) s))) # others" ..
    have "ends (Star (Cls C)) s i = ends (Star (Cls C)) s (Suc i) @ [i]"
      using i inC by (subst ends.simps(6)) (simp add: ends_Cls_byte [OF assms i] del: ends.simps(2,3))
    moreover have "takeWhile (byteIn C) (drop i s) = s ! i # takeWhile (byteIn C) (drop (Suc i) s)"
      using i inC by (simp add: Cons_nth_drop_Suc [symmetric])
    ultimately show ?thesis using IH by simp
  next
    case False
    have "ends (Cls C) s i = []"
    proof (cases "i < length s")
      case True
      with False ends_Cls_byte [OF assms True] show ?thesis by simp
    next
      case False
      then show ?thesis by simp
    qed
    then have "ends (Star (Cls C)) s i = [i]"
      by (subst ends.simps(6)) (simp del: ends.simps(2,3))
    moreover have "takeWhile (byteIn C) (drop i s) = []"
    proof (cases "i < length s")
      case True
      with False show ?thesis by (simp add: Cons_nth_drop_Suc [symmetric])
    next
      case False
      then show ?thesis by simp
    qed
    ultimately show ?thesis by simp
  qed
qed

lemma plus_Cls_run:
  assumes "asciiClass C" and "i \<le> length s"
  shows "if i < length s \<and> byteIn C (s ! i)
         then \<exists>others. ends (plus (Cls C)) s i = (i + length (takeWhile (byteIn C) (drop i s))) # others
         else ends (plus (Cls C)) s i = []"
proof (cases "i < length s \<and> byteIn C (s ! i)")
  case True
  then have i: "i < length s" and inC: "byteIn C (s ! i)" by simp_all
  from star_Cls_run [OF assms(1), of "Suc i" s] i obtain others
    where "ends (Star (Cls C)) s (Suc i)
             = (Suc i + length (takeWhile (byteIn C) (drop (Suc i) s))) # others" by auto
  moreover have "ends (plus (Cls C)) s i = ends (Star (Cls C)) s (Suc i)"
    using inC by (simp add: plus_def ends_Cls_byte [OF assms(1) i] del: ends.simps(2,3))
  moreover have "takeWhile (byteIn C) (drop i s) = s ! i # takeWhile (byteIn C) (drop (Suc i) s)"
    using i inC by (simp add: Cons_nth_drop_Suc [symmetric])
  ultimately show ?thesis using True by simp
next
  case False
  have "ends (Cls C) s i = []"
  proof (cases "i < length s")
    case True
    with False ends_Cls_byte [OF assms(1) True] show ?thesis by simp
  next
    case False
    then show ?thesis by simp
  qed
  then have "ends (plus (Cls C)) s i = []" by (simp add: plus_def del: ends.simps(2,3))
  with False show ?thesis by simp
qed

lemma takeWhile_skip:
  assumes "\<forall>k. i \<le> k \<and> k < i + w \<longrightarrow> Q (s ! k)" and "i + w \<le> length s"
  shows "length (takeWhile Q (drop i s)) = w + length (takeWhile Q (drop (i + w) s))"
proof -
  have split: "drop i s = take w (drop i s) @ drop (i + w) s"
    by (metis append_take_drop_id drop_drop add.commute)
  have "\<forall>x \<in> set (take w (drop i s)). Q x"
  proof
    fix x assume "x \<in> set (take w (drop i s))"
    then obtain n where n: "n < length (take w (drop i s))" "x = take w (drop i s) ! n"
      by (auto simp: in_set_conv_nth)
    with assms(2) have "n < w" "x = s ! (i + n)" by simp_all
    with assms(1) show "Q x" by simp
  qed
  then have "takeWhile Q (take w (drop i s) @ drop (i + w) s)
      = take w (drop i s) @ takeWhile Q (drop (i + w) s)"
    by (intro takeWhile_append2) blast
  with split have "takeWhile Q (drop i s) = take w (drop i s) @ takeWhile Q (drop (i + w) s)"
    by simp
  with assms(2) show ?thesis by simp
qed

text \<open>
  The leftmost match of \<open>[C]+\<close> at or after \<open>pos\<close>: it starts at the first byte of the class
  and ends where the run of class bytes ends.
\<close>

definition firstRun :: "(rune \<times> rune) list \<Rightarrow> string \<Rightarrow> nat \<Rightarrow> (nat \<times> nat) option" where
  "firstRun C s pos =
     (let b = pos + length (takeWhile (\<lambda>c. \<not> byteIn C c) (drop pos s))
      in if b = length s then None
         else Some (b, b + length (takeWhile (byteIn C) (drop b s))))"

lemma search_plus_Cls:
  assumes "asciiClass C"
  shows "pos \<le> length s \<Longrightarrow> search (plus (Cls C)) s pos = firstRun C s pos"
proof (induction "length s - pos" arbitrary: pos rule: less_induct)
  case less
  show ?case
  proof (cases "pos < length s")
    case False
    with less.prems have "pos = length s" by simp
    moreover from plus_Cls_run [OF assms less.prems] False
    have "ends (plus (Cls C)) s pos = []" by simp
    ultimately show ?thesis by (simp add: search.simps [of _ s "length s"] firstRun_def)
  next
    case pos: True
    show ?thesis
    proof (cases "byteIn C (s ! pos)")
      case True
      with plus_Cls_run [OF assms less.prems] pos obtain others
        where "ends (plus (Cls C)) s pos
                 = (pos + length (takeWhile (byteIn C) (drop pos s))) # others" by auto
      moreover have "takeWhile (\<lambda>c. \<not> byteIn C c) (drop pos s) = []"
        using pos True by (simp add: Cons_nth_drop_Suc [symmetric])
      ultimately show ?thesis using pos by (simp add: search.simps [of _ s pos] firstRun_def)
    next
      case False
      let ?w = "snd (DecodeRuneInString (drop pos s))"
      from stride [OF pos] have w: "0 < ?w" "pos + ?w \<le> length s"
        and hi: "\<forall>k. pos < k \<and> k < pos + ?w \<longrightarrow> \<not> byte (s ! k) < 0x80"
        by simp_all
      from plus_Cls_run [OF assms less.prems] False
      have "ends (plus (Cls C)) s pos = []" by simp
      with pos have "search (plus (Cls C)) s pos = search (plus (Cls C)) s (pos + ?w)"
        by (simp add: search.simps [of _ s pos])
      also from w pos have "length s - (pos + ?w) < length s - pos" by simp
      from less.hyps [OF this w(2)]
      have "search (plus (Cls C)) s (pos + ?w) = firstRun C s (pos + ?w)" .
      also have "firstRun C s (pos + ?w) = firstRun C s pos"
      proof -
        have "\<forall>k. pos \<le> k \<and> k < pos + ?w \<longrightarrow> \<not> byteIn C (s ! k)"
        proof (intro allI impI)
          fix k assume k: "pos \<le> k \<and> k < pos + ?w"
          show "\<not> byteIn C (s ! k)"
          proof (cases "k = pos")
            case True
            with False show ?thesis by simp
          next
            case False
            with k hi have "\<not> byte (s ! k) < 0x80" by simp
            with assms show ?thesis by (auto dest: byteIn_ascii)
          qed
        qed
        from takeWhile_skip [of pos ?w "\<lambda>c. \<not> byteIn C c" s, OF this w(2)]
        show ?thesis by (simp add: firstRun_def add.assoc)
      qed
      finally show ?thesis .
    qed
  qed
qed

lemma firstRun_bounds:
  assumes "firstRun C s pos = Some (b, e)" and "pos \<le> length s"
  shows "pos \<le> b \<and> b < e \<and> e \<le> length s
       \<and> take (b - pos) (drop pos s) = takeWhile (\<lambda>c. \<not> byteIn C c) (drop pos s)
       \<and> drop b s = dropWhile (\<lambda>c. \<not> byteIn C c) (drop pos s)
       \<and> drop e s = dropWhile (byteIn C) (drop b s)"
proof -
  let ?pre = "takeWhile (\<lambda>c. \<not> byteIn C c) (drop pos s)"
  from assms(1) have b: "b = pos + length ?pre" and ne: "b \<noteq> length s"
    and e: "e = b + length (takeWhile (byteIn C) (drop b s))"
    by (auto simp: firstRun_def Let_def split: if_splits)
  have "length ?pre \<le> length (drop pos s)" by (rule length_takeWhile_le)
  with assms(2) b ne have lt: "b < length s" by simp
  have pre: "take (b - pos) (drop pos s) = ?pre"
    by (simp add: b) (rule takeWhile_eq_take [symmetric])
  have "dropWhile (\<lambda>c. \<not> byteIn C c) (drop pos s) = drop (length ?pre) (drop pos s)"
    by (rule dropWhile_eq_drop)
  also have "\<dots> = drop b s" by (simp add: b add.commute)
  finally have rest: "drop b s = dropWhile (\<lambda>c. \<not> byteIn C c) (drop pos s)" by simp
  from lt rest have "dropWhile (\<lambda>c. \<not> byteIn C c) (drop pos s) \<noteq> []" by (metis drop_eq_Nil not_le)
  then have "byteIn C (hd (dropWhile (\<lambda>c. \<not> byteIn C c) (drop pos s)))"
    using hd_dropWhile [of "\<lambda>c. \<not> byteIn C c" "drop pos s"] by simp
  with rest [symmetric] have "byteIn C (hd (drop b s))" by simp
  with lt have "byteIn C (s ! b)" by (simp add: hd_drop_conv_nth)
  with lt have "takeWhile (byteIn C) (drop b s) \<noteq> []"
    by (simp add: Cons_nth_drop_Suc [symmetric])
  with e have "b < e" by simp
  moreover have "length (takeWhile (byteIn C) (drop b s)) \<le> length (drop b s)"
    by (rule length_takeWhile_le)
  with e lt have "e \<le> length s" by simp
  moreover have "dropWhile (byteIn C) (drop b s)
      = drop (length (takeWhile (byteIn C) (drop b s))) (drop b s)"
    by (rule dropWhile_eq_drop)
  then have "drop e s = dropWhile (byteIn C) (drop b s)"
    by (simp add: e add.commute)
  ultimately show ?thesis using b pre rest by simp
qed

lemma byteIn_Nil [simp]: "\<not> byteIn [] c"
  by (simp add: byteIn_def inRanges_def)

lemma byteIn_chr [simp]: "byteIn (chr a # C) c \<longleftrightarrow> c = a \<or> byteIn C c"
  by (auto simp: byteIn_def inRanges_def chr_def byte_def)

lemma asciiClass_Nil [simp]: "asciiClass []"
  by (simp add: asciiClass_def inRanges_def)

lemma asciiClass_chr [simp]: "asciiClass (chr a # C) \<longleftrightarrow> byte a < 0x80 \<and> asciiClass C"
  by (auto simp: asciiClass_def inRanges_def chr_def)

subsection \<open>The segments of a command\<close>

text \<open>
  The command is split on runs of the separator characters \<open>;\<close>, \<open>&\<close> and \<open>|\<close>: a segment
  is what stands before the first run, between two runs, or after the last one.
\<close>

definition isSeparator :: "char \<Rightarrow> bool" where
  "isSeparator c \<longleftrightarrow> c = CHR '';'' \<or> c = CHR ''&'' \<or> c = CHR ''|''"

function specSegments :: "string \<Rightarrow> string list" where
  "specSegments s =
     (if dropWhile (\<lambda>c. \<not> isSeparator c) s = [] then [s]
      else takeWhile (\<lambda>c. \<not> isSeparator c) s
           # specSegments (dropWhile isSeparator (dropWhile (\<lambda>c. \<not> isSeparator c) s)))"
  by pat_completeness auto
termination
proof (relation "measure length")
  fix s :: string
  let ?rest = "dropWhile (\<lambda>c. \<not> isSeparator c) s"
  assume ne: "?rest \<noteq> []"
  then have "isSeparator (hd ?rest)" using hd_dropWhile [of "\<lambda>c. \<not> isSeparator c" s] by simp
  with ne have "length (dropWhile isSeparator ?rest) < length ?rest"
    by (cases ?rest) (auto simp: length_dropWhile_le less_Suc_eq_le)
  moreover have "length ?rest \<le> length s" by (rule length_dropWhile_le)
  ultimately show "(dropWhile isSeparator ?rest, s) \<in> measure length" by simp
qed simp

declare specSegments.simps [simp del]

lemma separator_class:
  "asciiClass [chr CHR '';'', chr CHR ''&'', chr CHR ''|'']"
  "byteIn [chr CHR '';'', chr CHR ''&'', chr CHR ''|''] = isSeparator"
  by (auto simp: isSeparator_def byte_def)

lemma findAll_separators:
  assumes "pos \<le> length s"
  shows "findAll commandSeparatorRegex s pos prev
           = (case firstRun [chr CHR '';'', chr CHR ''&'', chr CHR ''|''] s pos of
                None \<Rightarrow> []
              | Some (b, e) \<Rightarrow> (b, e) # findAll commandSeparatorRegex s e (Some e))"
proof -
  let ?C = "[chr CHR '';'', chr CHR ''&'', chr CHR ''|'']"
  have s: "search commandSeparatorRegex s pos = firstRun ?C s pos"
    unfolding commandSeparatorRegex_def
    by (rule search_plus_Cls [OF separator_class(1) assms])
  show ?thesis
  proof (cases "firstRun ?C s pos")
    case None
    with s assms show ?thesis by (simp add: findAll.simps [of _ s pos])
  next
    case (Some m)
    obtain b e where m: "m = (b, e)" by (cases m)
    from firstRun_bounds [of ?C s pos b e] Some m assms have "pos \<le> b" "b < e" by simp_all
    then have "\<not> e \<le> pos" by simp
    with s Some m assms show ?thesis by (simp add: findAll.simps [of _ s pos])
  qed
qed



lemma specSegments_last:
  "dropWhile (\<lambda>c. \<not> isSeparator c) xs = [] \<Longrightarrow> specSegments xs = [xs]"
  by (subst specSegments.simps) simp

lemma specSegments_more:
  assumes "dropWhile (\<lambda>c. \<not> isSeparator c) xs \<noteq> []"
  shows "specSegments xs
     = takeWhile (\<lambda>c. \<not> isSeparator c) xs
       # specSegments (dropWhile isSeparator (dropWhile (\<lambda>c. \<not> isSeparator c) xs))"
  by (subst specSegments.simps) (rule if_not_P [OF assms])

lemma firstRun_None:
  assumes "pos \<le> length s" "firstRun [chr CHR '';'', chr CHR ''&'', chr CHR ''|''] s pos = None"
  shows "dropWhile (\<lambda>c. \<not> isSeparator c) (drop pos s) = []"
proof -
  from assms(2) have "pos + length (takeWhile (\<lambda>c. \<not> isSeparator c) (drop pos s)) = length s"
    by (simp add: firstRun_def Let_def separator_class(2) split: if_splits)
  with assms(1) have "length (takeWhile (\<lambda>c. \<not> isSeparator c) (drop pos s)) = length (drop pos s)"
    by simp
  then have "drop (length (takeWhile (\<lambda>c. \<not> isSeparator c) (drop pos s))) (drop pos s) = []"
    by simp
  then show ?thesis unfolding dropWhile_eq_drop [symmetric] .
qed


lemma splitLoop_separators:
  "pos \<le> length s \<Longrightarrow> fin \<noteq> length s \<Longrightarrow>
   splitLoop s (findAll commandSeparatorRegex s pos prev) pos fin = specSegments (drop pos s)"
proof (induction "length s - pos" arbitrary: pos prev fin rule: less_induct)
  case less
  let ?C = "[chr CHR '';'', chr CHR ''&'', chr CHR ''|'']"
  note fa = findAll_separators [OF less.prems(1), of prev]
  show ?case
  proof (cases "firstRun ?C s pos")
    case None
    from firstRun_None [OF less.prems(1) None]
    have "specSegments (drop pos s) = [drop pos s]" by (rule specSegments_last)
    moreover from None fa have "findAll commandSeparatorRegex s pos prev = []" by simp
    ultimately show ?thesis using less.prems(2) by simp
  next
    case (Some m)
    obtain b e where m: "m = (b, e)" by (cases m)
    from firstRun_bounds [of ?C s pos b e] Some m less.prems(1)
    have b: "pos \<le> b" "b < e" "e \<le> length s"
      and pre: "take (b - pos) (drop pos s) = takeWhile (\<lambda>c. \<not> isSeparator c) (drop pos s)"
      and rest: "drop b s = dropWhile (\<lambda>c. \<not> isSeparator c) (drop pos s)"
      and after: "drop e s = dropWhile isSeparator (drop b s)"
      by (simp_all add: separator_class(2))
    from b have "length s - e < length s - pos" "b \<noteq> length s" "e \<noteq> 0" by simp_all
    from less.hyps [OF this(1) b(3) this(2), of "Some e"]
    have IH: "splitLoop s (findAll commandSeparatorRegex s e (Some e)) e b = specSegments (drop e s)" .
    from b have "drop b s \<noteq> []" by simp
    then have "dropWhile (\<lambda>c. \<not> isSeparator c) (drop pos s) \<noteq> []" unfolding rest .
    then have "specSegments (drop pos s)
        = takeWhile (\<lambda>c. \<not> isSeparator c) (drop pos s)
          # specSegments (dropWhile isSeparator (dropWhile (\<lambda>c. \<not> isSeparator c) (drop pos s)))"
      by (rule specSegments_more)
    then have seg: "specSegments (drop pos s) = take (b - pos) (drop pos s) # specSegments (drop e s)"
      unfolding rest [symmetric] after [symmetric] pre [symmetric] .
    from Some m fa
    have "findAll commandSeparatorRegex s pos prev = (b, e) # findAll commandSeparatorRegex s e (Some e)"
      by simp
    then have "splitLoop s (findAll commandSeparatorRegex s pos prev) pos fin
        = [take (b - pos) (drop pos s)] @ splitLoop s (findAll commandSeparatorRegex s e (Some e)) e b"
      using \<open>e \<noteq> 0\<close> by simp
    with IH seg show ?thesis by simp
  qed
qed

lemma Split_separators: "Split commandSeparatorRegex command = specSegments command"
proof (cases "command = []")
  case True
  have "specSegments [] = [[]]" by (rule specSegments_last) simp
  with True show ?thesis by (simp add: Split_def)
next
  case False
  then have "0 \<noteq> length command" by simp
  from splitLoop_separators [OF _ this, of 0 None]
  have "splitLoop command (findAll commandSeparatorRegex command 0 None) 0 0 = specSegments command"
    by simp
  with False show ?thesis by (simp add: Split_def FindAllStringIndex_def)
qed

subsection \<open>Searching\<close>

lemma search_None:
  "(\<And>p. b \<le> p \<Longrightarrow> ends re s p = []) \<Longrightarrow> search re s b = None"
proof (induction re s b rule: search.induct)
  case (1 re s b)
  have e: "ends re s b = []" by (rule "1.prems") simp
  show ?case
  proof (cases "b < length s")
    case True
    have "search re s (b + snd (DecodeRuneInString (drop b s))) = None"
      by (rule "1.IH" [OF e True]) (rule "1.prems", simp)
    with e True show ?thesis by (simp add: search.simps [of re s b])
  next
    case False
    with e show ?thesis by (simp add: search.simps [of re s b])
  qed
qed

lemma MatchString_anchored: "MatchString (Seq BeginText r) s \<longleftrightarrow> ends r s 0 \<noteq> []"
proof (cases "ends r s 0")
  case Nil
  have "search (Seq BeginText r) s 0 = None"
    by (rule search_None) (simp add: Nil)
  with Nil show ?thesis by (simp add: MatchString_def)
next
  case (Cons e es)
  then show ?thesis by (simp add: MatchString_def search.simps [of _ s 0])
qed

lemma search_finds:
  "ends re s p \<noteq> [] \<Longrightarrow> p \<le> length s \<Longrightarrow> p = length s \<or> byte (s ! p) < 0x80 \<Longrightarrow> b \<le> p
   \<Longrightarrow> search re s b \<noteq> None"
proof (induction re s b rule: search.induct)
  case (1 re s b)
  show ?case
  proof (cases "ends re s b")
    case Nil
    with "1.prems"(1) have "b \<noteq> p" by auto
    with "1.prems"(4) have lt: "b < p" by simp
    with "1.prems"(2) have bl: "b < length s" by simp
    let ?w = "snd (DecodeRuneInString (drop b s))"
    from stride [OF bl] have w: "b + ?w \<le> length s"
      and hi: "\<forall>k. b < k \<and> k < b + ?w \<longrightarrow> \<not> byte (s ! k) < 0x80"
      by blast+
    have "b + ?w \<le> p"
    proof (rule ccontr)
      assume "\<not> b + ?w \<le> p"
      then have "p < b + ?w" by simp
      with lt hi have "\<not> byte (s ! p) < 0x80" by blast
      moreover from \<open>p < b + ?w\<close> w have "p \<noteq> length s" by simp
      ultimately show False using "1.prems"(3) by blast
    qed
    from "1.IH" [OF Nil bl "1.prems"(1,2,3) this] Nil bl show ?thesis
      by (simp add: search.simps [of re s b])
  next
    case (Cons e es)
    then show ?thesis by (simp add: search.simps [of re s b])
  qed
qed

lemma MatchString_iff:
  assumes "\<And>p. ends re s p \<noteq> [] \<Longrightarrow> p \<le> length s \<and> (p = length s \<or> byte (s ! p) < 0x80)"
  shows "MatchString re s \<longleftrightarrow> (\<exists>p. ends re s p \<noteq> [])"
proof
  assume "MatchString re s"
  then obtain b e where "search re s 0 = Some (b, e)" by (auto simp: MatchString_def)
  from search_is_match [OF this] obtain es where "ends re s b = e # es" ..
  then have "ends re s b \<noteq> []" by simp
  then show "\<exists>p. ends re s p \<noteq> []" ..
next
  assume "\<exists>p. ends re s p \<noteq> []"
  then obtain p where p: "ends re s p \<noteq> []" ..
  from assms [OF p] have "p \<le> length s" "p = length s \<or> byte (s ! p) < 0x80" by simp_all
  from search_finds [OF p this] show "MatchString re s" by (simp add: MatchString_def)
qed

lemma ends_Seq_nonempty:
  "ends (Seq a b) s i \<noteq> [] \<longleftrightarrow> (\<exists>j \<in> set (ends a s i). ends b s j \<noteq> [])"
  by simp

subsection \<open>Words of a pattern under \<open>(?i)\<close>\<close>

lemma ilit_Nil: "ilit [] = Eps"
  by (simp add: ilit_def seqs_def)

lemma ilit_Cons: "ilit (c # w) = Seq (Cls (foldOrbit c)) (ilit w)"
  by (simp add: ilit_def seqs_def)

text \<open>An ASCII character whose case-folding orbit is its two cases.\<close>

definition plainChar :: "char \<Rightarrow> bool" where
  "plainChar c \<longleftrightarrow> byte c < 0x80 \<and> c \<notin> {CHR ''s'', CHR ''S'', CHR ''k'', CHR ''K''}"

lemma foldOrbit_ascii: "plainChar c \<Longrightarrow> asciiClass (foldOrbit c)"
  by (auto simp: plainChar_def asciiClass_def foldOrbit_def inRanges_def between_def)

lemma foldOrbit_byte: "plainChar c \<Longrightarrow> byteIn (foldOrbit c) x \<longleftrightarrow> asciiLower x = asciiLower c"
  by (auto simp: plainChar_def byteIn_def foldOrbit_def inRanges_def between_def asciiLower_def
      byte_def char_of_eq_iff take_bit_eq_mod)

text \<open>\<open>w\<close> stands at byte \<open>i\<close> of \<open>s\<close>, in any mix of cases.\<close>

definition foldAt :: "string \<Rightarrow> string \<Rightarrow> nat \<Rightarrow> bool" where
  "foldAt w s i \<longleftrightarrow>
     i + length w \<le> length s \<and> map asciiLower (take (length w) (drop i s)) = map asciiLower w"

lemma foldAt_Nil: "foldAt [] s i \<longleftrightarrow> i \<le> length s"
  by (simp add: foldAt_def)

lemma foldAt_Cons:
  "foldAt (c # w) s i \<longleftrightarrow> i < length s \<and> asciiLower (s ! i) = asciiLower c \<and> foldAt w s (Suc i)"
proof (cases "i < length s")
  case True
  then have "drop i s = s ! i # drop (Suc i) s" by (rule Cons_nth_drop_Suc [symmetric])
  with True show ?thesis by (auto simp: foldAt_def)
next
  case False
  then show ?thesis by (simp add: foldAt_def)
qed

lemma ends_ilit:
  "list_all plainChar w \<Longrightarrow> i \<le> length s \<Longrightarrow>
   ends (ilit w) s i = (if foldAt w s i then [i + length w] else [])"
proof (induction w arbitrary: i)
  case Nil
  then show ?case by (simp add: ilit_Nil foldAt_Nil)
next
  case (Cons c w)
  from Cons.prems(1) have c: "plainChar c" and w: "list_all plainChar w" by simp_all
  show ?case
  proof (cases "i < length s")
    case True
    have "ends (Cls (foldOrbit c)) s i = (if asciiLower (s ! i) = asciiLower c then [Suc i] else [])"
      unfolding ends_Cls_byte [OF foldOrbit_ascii [OF c] True] foldOrbit_byte [OF c] ..
    moreover from True have "Suc i \<le> length s" by simp
    note Cons.IH [OF w this]
    ultimately show ?thesis
      using True by (simp add: ilit_Cons foldAt_Cons del: ends.simps(2))
  next
    case False
    then show ?thesis by (simp add: ilit_Cons foldAt_Cons)
  qed
qed

lemma foldAt_append:
  "foldAt (u @ v) s i \<longleftrightarrow> foldAt u s i \<and> foldAt v s (i + length u)"
proof (induction u arbitrary: i)
  case Nil
  show ?case by (auto simp: foldAt_Nil foldAt_def)
next
  case (Cons c u)
  then show ?case by (auto simp: foldAt_Cons)
qed

lemma IsWordChar_fold: "asciiLower x = asciiLower c \<Longrightarrow> IsWordChar x \<longleftrightarrow> IsWordChar c"
  by (auto simp: IsWordChar_def between_def asciiLower_def byte_def char_of_eq_iff take_bit_eq_mod
      split: if_splits)


lemma IsWordChar_letters:
  "IsWordChar CHR ''t''" "IsWordChar CHR ''e''" "IsWordChar CHR ''c''" "IsWordChar CHR ''g''"
  "\<not> IsWordChar CHR ''/''" "\<not> IsWordChar (CHR 0x5C)"
  by (simp_all add: IsWordChar_def between_def byte_def)

lemma plain_words:
  "list_all plainChar ''git''" "list_all plainChar ''.exe''" "list_all plainChar ''commit''"
  by (simp_all add: plainChar_def byte_def)

subsection \<open>Whole words\<close>

text \<open>No word character stands right before byte \<open>i\<close>, or right at byte \<open>j\<close>.\<close>

definition wordStartsAt :: "string \<Rightarrow> nat \<Rightarrow> bool" where
  "wordStartsAt t i \<longleftrightarrow> \<not> (0 < i \<and> IsWordChar (t ! (i - 1)))"

definition wordEndsAt :: "string \<Rightarrow> nat \<Rightarrow> bool" where
  "wordEndsAt t j \<longleftrightarrow> \<not> (j < length t \<and> IsWordChar (t ! j))"

lemma ends_boundary:
  "ends (Seq WordBoundary r) s i = (if wordBefore s i \<noteq> wordAfter s i then ends r s i else [])"
  by simp

lemma boundary_after_word:
  assumes "0 < j" "j \<le> length s" "IsWordChar (s ! (j - 1))"
  shows "wordBefore s j \<noteq> wordAfter s j \<longleftrightarrow> wordEndsAt s j"
  using assms by (simp add: wordBefore_def wordAfter_def wordEndsAt_def)

lemma boundary_before_word:
  assumes "i < length s" "IsWordChar (s ! i)"
  shows "wordBefore s i \<noteq> wordAfter s i \<longleftrightarrow> wordStartsAt s i"
  using assms by (auto simp: wordBefore_def wordAfter_def wordStartsAt_def)


lemma foldAt_git:
  assumes "foldAt ''git'' s i"
  shows "i + 3 \<le> length s" "IsWordChar (s ! i)" "IsWordChar (s ! (i + 3 - 1))"
proof -
  from assms show "i + 3 \<le> length s" by (simp add: foldAt_def)
  from assms have "asciiLower (s ! i) = asciiLower CHR ''g''"
    and "asciiLower (s ! Suc (Suc i)) = asciiLower CHR ''t''"
    by (simp_all add: foldAt_Cons)
  then show "IsWordChar (s ! i)" "IsWordChar (s ! (i + 3 - 1))"
    by (simp_all add: IsWordChar_fold IsWordChar_letters)
qed


lemma foldAt_nth:
  assumes "foldAt w s i" and "k < length w"
  shows "asciiLower (s ! (i + k)) = asciiLower (w ! k)"
proof -
  from assms(1) have le: "i + length w \<le> length s"
    and eq: "map asciiLower (take (length w) (drop i s)) = map asciiLower w"
    by (simp_all add: foldAt_def)
  from eq have "map asciiLower (take (length w) (drop i s)) ! k = map asciiLower w ! k"
    by (rule arg_cong)
  moreover from le assms(2) have "map asciiLower (take (length w) (drop i s)) ! k = asciiLower (s ! (i + k))"
    by simp
  moreover from assms(2) have "map asciiLower w ! k = asciiLower (w ! k)" by simp
  ultimately show ?thesis by (rule box_equals)
qed

lemma foldAt_exe:
  assumes "foldAt ''.exe'' s j"
  shows "j + 4 \<le> length s" "IsWordChar (s ! (j + 4 - 1))"
proof -
  from assms show "j + 4 \<le> length s" unfolding foldAt_def by simp
  from foldAt_nth [OF assms, of 3] have "asciiLower (s ! (j + 3)) = asciiLower CHR ''e''"
    by simp
  then have "IsWordChar (s ! (j + 3))"
    by (simp only: IsWordChar_fold IsWordChar_letters)
  moreover have "j + 4 - 1 = j + 3" by simp
  ultimately show "IsWordChar (s ! (j + 4 - 1))" by (simp only:)
qed

lemma foldAt_commit:
  assumes "foldAt ''commit'' s p"
  shows "p + 6 \<le> length s" "IsWordChar (s ! p)" "IsWordChar (s ! (p + 6 - 1))" "byte (s ! p) < 0x80"
proof -
  from assms show "p + 6 \<le> length s" unfolding foldAt_def by simp
  from foldAt_nth [OF assms, of 0] have c: "asciiLower (s ! p) = asciiLower CHR ''c''"
    by simp
  from foldAt_nth [OF assms, of 5] have t: "asciiLower (s ! (p + 5)) = asciiLower CHR ''t''"
    by simp
  from c show "IsWordChar (s ! p)" by (simp only: IsWordChar_fold IsWordChar_letters)
  from t have "IsWordChar (s ! (p + 5))" by (simp only: IsWordChar_fold IsWordChar_letters)
  moreover have "p + 6 - 1 = p + 5" by simp
  ultimately show "IsWordChar (s ! (p + 6 - 1))" by (simp only:)
  have pc: "plainChar CHR ''c''" by (simp add: plainChar_def byte_def)
  from c have "byteIn (foldOrbit CHR ''c'') (s ! p)" by (simp only: foldOrbit_byte [OF pc])
  with foldOrbit_ascii [OF pc] show "byte (s ! p) < 0x80" by (rule byteIn_ascii)
qed

lemma ends_Seq_ilit:
  "list_all plainChar w \<Longrightarrow> i \<le> length s \<Longrightarrow>
   ends (Seq (ilit w) r) s i = (if foldAt w s i then ends r s (i + length w) else [])"
  by (simp add: ends_ilit)

lemma ends_last_boundary:
  "ends (Seq WordBoundary Eps) s k = (if wordBefore s k \<noteq> wordAfter s k then [k] else [])"
  by simp

lemma word_lengths: "length ''git'' = 3" "length ''.exe'' = 4" "length ''commit'' = 6"
  by simp_all

lemma commit_at:
  "ends commitWordRegex s p \<noteq> []
     \<longleftrightarrow> foldAt ''commit'' s p \<and> wordStartsAt s p \<and> wordEndsAt s (p + 6)"
proof (cases "foldAt ''commit'' s p")
  case True
  note f = foldAt_commit [OF True]
  from f(1) have p: "p < length s" "p \<le> length s" "0 < p + 6" by simp_all
  have b: "wordBefore s p \<noteq> wordAfter s p \<longleftrightarrow> wordStartsAt s p"
    by (rule boundary_before_word [OF p(1) f(2)])
  have e: "wordBefore s (p + 6) \<noteq> wordAfter s (p + 6) \<longleftrightarrow> wordEndsAt s (p + 6)"
    by (rule boundary_after_word [OF p(3) f(1) f(3)])
  have "ends commitWordRegex s p
      = (if wordStartsAt s p then (if wordEndsAt s (p + 6) then [p + 6] else []) else [])"
    unfolding commitWordRegex_def seqs_def foldr.simps o_apply ends_boundary
      ends_Seq_ilit [OF plain_words(3) p(2), unfolded word_lengths] ends_last_boundary b
    using True e by simp
  with True show ?thesis by simp
next
  case False
  have "ends commitWordRegex s p = []"
  proof (cases "p \<le> length s")
    case True
    show ?thesis
      unfolding commitWordRegex_def seqs_def foldr.simps o_apply ends_boundary
        ends_Seq_ilit [OF plain_words(3) True, unfolded word_lengths]
      using False by simp
  next
    case False
    then have "\<not> (wordBefore s p \<noteq> wordAfter s p)"
      by (simp add: wordBefore_def wordAfter_def)
    then show ?thesis
      unfolding commitWordRegex_def seqs_def foldr.simps o_apply ends_boundary by simp
  qed
  with False show ?thesis by simp
qed

lemma boundary_list:
  assumes "0 < j" "j \<le> length s" "IsWordChar (s ! (j - 1))"
  shows "ends (Seq WordBoundary Eps) s j = (if wordEndsAt s j then [j] else [])"
  unfolding ends_last_boundary boundary_after_word [OF assms] ..

lemma ends_opt: "ends (opt r) s j = ends r s j @ [j]"
  by (simp add: opt_def)

lemma git_at:
  assumes "i \<le> length s"
  shows "ends (Seq (ilit ''git'') (Seq (opt (ilit ''.exe'')) (Seq WordBoundary Eps))) s i \<noteq> []
     \<longleftrightarrow> foldAt ''git'' s i
         \<and> (wordEndsAt s (i + 3) \<or> foldAt ''.exe'' s (i + 3) \<and> wordEndsAt s (i + 3 + 4))"
proof (cases "foldAt ''git'' s i")
  case True
  define j where "j = i + 3"
  define k where "k = j + 4"
  note f = foldAt_git [OF True, folded j_def]
  have "0 < j" by (simp add: j_def)
  from boundary_list [OF this f(1) f(3)]
  have bj: "ends (Seq WordBoundary Eps) s j = (if wordEndsAt s j then [j] else [])" .
  have tail: "ends (Seq (opt (ilit ''.exe'')) (Seq WordBoundary Eps)) s j \<noteq> []
      \<longleftrightarrow> wordEndsAt s j \<or> foldAt ''.exe'' s j \<and> wordEndsAt s k"
  proof (cases "foldAt ''.exe'' s j")
    case True
    note g = foldAt_exe [OF True, folded k_def]
    have "0 < k" by (simp add: k_def)
    from boundary_list [OF this g(1) g(2)]
    have bk: "ends (Seq WordBoundary Eps) s k = (if wordEndsAt s k then [k] else [])" .
    from True have "ends (ilit ''.exe'') s j = [k]"
      unfolding ends_ilit [OF plain_words(2) f(1), unfolded word_lengths] k_def by simp
    then have "ends (opt (ilit ''.exe'')) s j = [k, j]" unfolding ends_opt by simp
    then have "ends (Seq (opt (ilit ''.exe'')) (Seq WordBoundary Eps)) s j
        = (if wordEndsAt s k then [k] else []) @ (if wordEndsAt s j then [j] else [])"
      unfolding ends.simps(4) [of "opt (ilit ''.exe'')"] bk [symmetric] bj [symmetric] by simp
    with True show ?thesis by simp
  next
    case False
    then have "ends (ilit ''.exe'') s j = []"
      unfolding ends_ilit [OF plain_words(2) f(1), unfolded word_lengths] by simp
    then have "ends (opt (ilit ''.exe'')) s j = [j]" unfolding ends_opt by simp
    then have "ends (Seq (opt (ilit ''.exe'')) (Seq WordBoundary Eps)) s j
        = (if wordEndsAt s j then [j] else [])"
      unfolding ends.simps(4) [of "opt (ilit ''.exe'')"] bj [symmetric] by simp
    with False show ?thesis by simp
  qed
  from True have "ends (Seq (ilit ''git'') (Seq (opt (ilit ''.exe'')) (Seq WordBoundary Eps))) s i
      = ends (Seq (opt (ilit ''.exe'')) (Seq WordBoundary Eps)) s j"
    unfolding ends_Seq_ilit [OF plain_words(1) assms, unfolded word_lengths] j_def by simp
  with tail True show ?thesis unfolding k_def j_def by simp
next
  case False
  then have "ends (Seq (ilit ''git'') (Seq (opt (ilit ''.exe'')) (Seq WordBoundary Eps))) s i = []"
    unfolding ends_Seq_ilit [OF plain_words(1) assms, unfolded word_lengths] by simp
  with False show ?thesis by simp
qed

lemma MatchString_commit:
  "MatchString commitWordRegex s
     \<longleftrightarrow> (\<exists>p. foldAt ''commit'' s p \<and> wordStartsAt s p \<and> wordEndsAt s (p + 6))"
proof -
  have "p \<le> length s \<and> (p = length s \<or> byte (s ! p) < 0x80)"
    if "ends commitWordRegex s p \<noteq> []" for p
  proof -
    from that have "foldAt ''commit'' s p" unfolding commit_at ..
    from foldAt_commit(1,4) [OF this] show ?thesis by simp
  qed
  then have "MatchString commitWordRegex s \<longleftrightarrow> (\<exists>p. ends commitWordRegex s p \<noteq> [])"
    by (rule MatchString_iff)
  then show ?thesis unfolding commit_at .
qed

subsection \<open>The path in front of \<open>git\<close>\<close>

text \<open>The characters of \<open>\s\<close>, and the two characters that close a path.\<close>

definition isBlank :: "char \<Rightarrow> bool" where
  "isBlank c \<longleftrightarrow> byte c \<in> {0x09, 0x0A, 0x0C, 0x0D, 0x20}"

definition isSlash :: "char \<Rightarrow> bool" where
  "isSlash c \<longleftrightarrow> c = CHR ''/'' \<or> c = CHR 0x5C"

lemma perlSpace_class: "asciiClass perlSpace" "byteIn perlSpace c \<longleftrightarrow> isBlank c"
  by (auto simp: asciiClass_def byteIn_def inRanges_def perlSpace_def isBlank_def)

lemma slash_class:
  "asciiClass [chr CHR ''/'', chr (CHR 0x5C)]"
  "byteIn [chr CHR ''/'', chr (CHR 0x5C)] c \<longleftrightarrow> isSlash c"
  by (simp_all add: isSlash_def byte_def)

text \<open>A path closed by the slash at byte \<open>k\<close> ends at \<open>j = k + 1\<close>.\<close>

definition pathEnds :: "string \<Rightarrow> nat \<Rightarrow> bool" where
  "pathEnds s j \<longleftrightarrow>
     (\<exists>k. j = Suc k \<and> 0 < k \<and> k < length s \<and> isSlash (s ! k) \<and> (\<forall>m<k. \<not> isBlank (s ! m)))"

lemma path_reach:
  "j \<in> set (ends (Seq (plus (NCls perlSpace)) (Cls [chr CHR ''/'', chr (CHR 0x5C)])) s 0)
     \<longleftrightarrow> pathEnds s j"
proof
  assume "j \<in> set (ends (Seq (plus (NCls perlSpace)) (Cls [chr CHR ''/'', chr (CHR 0x5C)])) s 0)"
  then obtain k where k: "k \<in> set (ends (plus (NCls perlSpace)) s 0)"
    and j: "j \<in> set (ends (Cls [chr CHR ''/'', chr (CHR 0x5C)]) s k)"
    unfolding ends.simps(4) set_concat set_map by blast
  from ends_bounds [OF _ k] have "k \<le> length s" by simp
  have lt: "k < length s"
  proof (rule ccontr)
    assume "\<not> k < length s"
    then have "ends (Cls [chr CHR ''/'', chr (CHR 0x5C)]) s k = []" by simp
    from j [unfolded this] show False by simp
  qed
  note e = ends_Cls_byte [OF slash_class(1) lt]
  have sl: "byteIn [chr CHR ''/'', chr (CHR 0x5C)] (s ! k)"
  proof (rule ccontr)
    assume "\<not> byteIn [chr CHR ''/'', chr (CHR 0x5C)] (s ! k)"
    with e have "ends (Cls [chr CHR ''/'', chr (CHR 0x5C)]) s k = []" by (simp only: if_False)
    from j [unfolded this] show False by simp
  qed
  with e have "ends (Cls [chr CHR ''/'', chr (CHR 0x5C)]) s k = [Suc k]" by (simp only: if_True)
  from j [unfolded this] have jk: "j = Suc k" by simp
  from byteIn_ascii [OF slash_class(1) sl] have "byte (s ! k) < 0x80" .
  from plus_NCls_reach [OF perlSpace_class(1) lt this, of 0] k
  have "0 < k" "\<forall>m. 0 \<le> m \<and> m < k \<longrightarrow> \<not> byteIn perlSpace (s ! m)" by simp_all
  with jk lt sl show "pathEnds s j"
    unfolding pathEnds_def slash_class(2) perlSpace_class(2) by blast
next
  assume "pathEnds s j"
  then obtain k where jk: "j = Suc k" and k: "0 < k" "k < length s" and sl: "isSlash (s ! k)"
    and nb: "\<forall>m<k. \<not> isBlank (s ! m)"
    unfolding pathEnds_def by blast
  from sl have sl': "byteIn [chr CHR ''/'', chr (CHR 0x5C)] (s ! k)" unfolding slash_class(2) .
  from byteIn_ascii [OF slash_class(1) sl'] have "byte (s ! k) < 0x80" .
  from plus_NCls_reach [OF perlSpace_class(1) k(2) this, of 0] k(1) nb
  have 1: "k \<in> set (ends (plus (NCls perlSpace)) s 0)"
    unfolding perlSpace_class(2) by simp
  from ends_Cls_byte [OF slash_class(1) k(2)] sl'
  have "ends (Cls [chr CHR ''/'', chr (CHR 0x5C)]) s k = [Suc k]" by (simp only: if_True)
  then have 2: "j \<in> set (ends (Cls [chr CHR ''/'', chr (CHR 0x5C)]) s k)"
    unfolding jk by (simp only: list.set insertI1)
  from 1 2 show "j \<in> set (ends (Seq (plus (NCls perlSpace)) (Cls [chr CHR ''/'', chr (CHR 0x5C)])) s 0)"
    unfolding ends.simps(4) set_concat set_map by blast
qed

lemma gitCommandRegex_shape:
  "gitCommandRegex
     = Seq BeginText
         (Seq (opt (Seq (plus (NCls perlSpace)) (Cls [chr CHR ''/'', chr (CHR 0x5C)])))
            (Seq (ilit ''git'') (Seq (opt (ilit ''.exe'')) (Seq WordBoundary Eps))))"
  by (simp add: gitCommandRegex_def seqs_def)

lemma MatchString_git:
  "MatchString gitCommandRegex s
     \<longleftrightarrow> (\<exists>i. (i = 0 \<or> pathEnds s i) \<and> foldAt ''git'' s i
              \<and> (wordEndsAt s (i + 3) \<or> foldAt ''.exe'' s (i + 3) \<and> wordEndsAt s (i + 3 + 4)))"
  (is "?lhs \<longleftrightarrow> ?rhs")
proof -
  let ?P = "opt (Seq (plus (NCls perlSpace)) (Cls [chr CHR ''/'', chr (CHR 0x5C)]))"
  let ?T = "Seq (ilit ''git'') (Seq (opt (ilit ''.exe'')) (Seq WordBoundary Eps))"
  have reach: "i \<in> set (ends ?P s 0) \<longleftrightarrow> i = 0 \<or> pathEnds s i" for i
    unfolding ends_opt set_append path_reach [symmetric] by auto
  have "?lhs \<longleftrightarrow> (\<exists>i \<in> set (ends ?P s 0). ends ?T s i \<noteq> [])"
    unfolding gitCommandRegex_shape MatchString_anchored by (rule ends_Seq_nonempty)
  also have "\<dots> \<longleftrightarrow> ?rhs"
  proof
    assume "\<exists>i \<in> set (ends ?P s 0). ends ?T s i \<noteq> []"
    then obtain i where i: "i \<in> set (ends ?P s 0)" and t: "ends ?T s i \<noteq> []" ..
    from ends_bounds [OF _ i] have "i \<le> length s" by simp
    from t [unfolded git_at [OF this]] i [unfolded reach] show ?rhs by blast
  next
    assume ?rhs
    then obtain i where p: "i = 0 \<or> pathEnds s i" and g: "foldAt ''git'' s i"
      and e: "wordEndsAt s (i + 3) \<or> foldAt ''.exe'' s (i + 3) \<and> wordEndsAt s (i + 3 + 4)"
      by blast
    from g have "i \<le> length s" by (simp add: foldAt_def)
    from git_at [OF this] g e have "ends ?T s i \<noteq> []" by blast
    moreover from p have "i \<in> set (ends ?P s 0)" unfolding reach .
    ultimately show "\<exists>i \<in> set (ends ?P s 0). ends ?T s i \<noteq> []" ..
  qed
  finally show ?thesis .
qed

subsection \<open>The classifier in the words of the specification\<close>

text \<open>
  Two strings are equal ignoring case. The words in question are \<open>git\<close>, \<open>.exe\<close> and
  \<open>commit\<close>; none of their letters has a case variant outside ASCII.
\<close>

definition equalFold :: "string \<Rightarrow> string \<Rightarrow> bool" where
  "equalFold a b \<longleftrightarrow> map asciiLower a = map asciiLower b"

text \<open>
  \<open>w\<close> stands at byte \<open>i\<close> of \<open>t\<close>, in any mix of cases, as a whole word: no word character
  stands right before it or right after it.
\<close>

definition wholeWordAt :: "string \<Rightarrow> string \<Rightarrow> nat \<Rightarrow> bool" where
  "wholeWordAt w t i \<longleftrightarrow>
     equalFold (take (length w) (drop i t)) w \<and> wordStartsAt t i \<and> wordEndsAt t (i + length w)"

text \<open>
  A path prefix: at least one character, none of them \<open>\t \n \f \r\<close> or space, and then a slash
  or a backslash.
\<close>

definition specPathPrefix :: "string \<Rightarrow> bool" where
  "specPathPrefix p \<longleftrightarrow> 2 \<le> length p \<and> isSlash (last p) \<and> list_all (\<lambda>c. \<not> isBlank c) (butlast p)"

text \<open>
  The segment begins with an optional path prefix followed by \<open>git\<close> or \<open>git.exe\<close> as a whole
  word; it contains the whole word \<open>w\<close> somewhere.
\<close>

definition specBeginsWithGit :: "string \<Rightarrow> bool" where
  "specBeginsWithGit t \<longleftrightarrow>
     list_ex (\<lambda>i. (i = 0 \<or> specPathPrefix (take i t))
                 \<and> (wholeWordAt ''git'' t i \<or> wholeWordAt ''git.exe'' t i))
       [0..<Suc (length t)]"

definition specContainsWord :: "string \<Rightarrow> string \<Rightarrow> bool" where
  "specContainsWord w t \<longleftrightarrow> list_ex (wholeWordAt w t) [0..<Suc (length t)]"

text \<open>
  Some segment of the command, trimmed, is not empty, is a git invocation and contains the
  whole word \<open>commit\<close>.
\<close>

definition specIsGitCommit :: "string \<Rightarrow> bool" where
  "specIsGitCommit command \<longleftrightarrow>
     list_ex (\<lambda>segment. let t = TrimSpace segment
                        in t \<noteq> [] \<and> specBeginsWithGit t \<and> specContainsWord ''commit'' t)
       (specSegments command)"

lemma equalFold_foldAt:
  assumes "w \<noteq> []"
  shows "equalFold (take (length w) (drop i t)) w \<longleftrightarrow> foldAt w t i"
proof
  assume "equalFold (take (length w) (drop i t)) w"
  then have eq: "map asciiLower (take (length w) (drop i t)) = map asciiLower w"
    unfolding equalFold_def .
  then have "length (map asciiLower (take (length w) (drop i t))) = length (map asciiLower w)"
    by (rule arg_cong)
  then have "length w \<le> length t - i" by simp
  moreover from assms have "0 < length w" by simp
  ultimately have "i + length w \<le> length t" by arith
  from this eq show "foldAt w t i" unfolding foldAt_def ..
next
  assume "foldAt w t i"
  then show "equalFold (take (length w) (drop i t)) w" unfolding foldAt_def equalFold_def ..
qed

lemma wholeWordAt_foldAt:
  assumes "w \<noteq> []"
  shows "wholeWordAt w t i \<longleftrightarrow> foldAt w t i \<and> wordStartsAt t i \<and> wordEndsAt t (i + length w)"
  unfolding wholeWordAt_def equalFold_foldAt [OF assms] ..

lemma wholeWordAt_git:
  "wholeWordAt ''git'' t i \<longleftrightarrow> foldAt ''git'' t i \<and> wordStartsAt t i \<and> wordEndsAt t (i + 3)"
proof -
  have "''git'' \<noteq> []" by simp
  from wholeWordAt_foldAt [OF this, of t i, unfolded word_lengths] show ?thesis .
qed

lemma wholeWordAt_commit:
  "wholeWordAt ''commit'' t i \<longleftrightarrow> foldAt ''commit'' t i \<and> wordStartsAt t i \<and> wordEndsAt t (i + 6)"
proof -
  have "''commit'' \<noteq> []" by simp
  from wholeWordAt_foldAt [OF this, of t i, unfolded word_lengths] show ?thesis .
qed

lemma wholeWordAt_git_exe:
  "wholeWordAt ''git.exe'' t i
     \<longleftrightarrow> foldAt ''git'' t i \<and> foldAt ''.exe'' t (i + 3) \<and> wordStartsAt t i \<and> wordEndsAt t (i + 3 + 4)"
proof -
  have ne: "''git'' @ ''.exe'' \<noteq> []" by simp
  have len: "length (''git'' @ ''.exe'') = 3 + 4" by simp
  have w: "''git.exe'' = ''git'' @ ''.exe''" by simp
  have "i + (3 + 4) = i + 3 + 4" by simp
  with wholeWordAt_foldAt [OF ne, of t i, unfolded len foldAt_append word_lengths]
  show ?thesis unfolding w by (simp only: conj_assoc)
qed

lemma specPathPrefix_take:
  assumes "i \<le> length t"
  shows "specPathPrefix (take i t) \<longleftrightarrow> pathEnds t i"
proof
  assume p: "specPathPrefix (take i t)"
  with assms have "2 \<le> i" by (simp add: specPathPrefix_def)
  then obtain k where ik: "i = Suc k" and k: "0 < k" by (cases i) auto
  from ik assms have kl: "k < length t" by simp
  then have l: "last (take (Suc k) t) = t ! k" by (simp add: take_Suc_conv_app_nth)
  from kl have b: "butlast (take (Suc k) t) = take k t" by (simp add: take_Suc_conv_app_nth)
  from p have "isSlash (t ! k)" "list_all (\<lambda>c. \<not> isBlank c) (take k t)"
    unfolding specPathPrefix_def ik l b by simp_all
  with kl have "\<forall>m<k. \<not> isBlank (t ! m)" by (simp add: list_all_length)
  with ik k kl \<open>isSlash (t ! k)\<close> show "pathEnds t i" unfolding pathEnds_def by blast
next
  assume "pathEnds t i"
  then obtain k where ik: "i = Suc k" and k: "0 < k" and kl: "k < length t"
    and sl: "isSlash (t ! k)" and nb: "\<forall>m<k. \<not> isBlank (t ! m)"
    unfolding pathEnds_def by blast
  from kl have l: "last (take (Suc k) t) = t ! k" by (simp add: take_Suc_conv_app_nth)
  from kl have b: "butlast (take (Suc k) t) = take k t" by (simp add: take_Suc_conv_app_nth)
  from kl nb have "list_all (\<lambda>c. \<not> isBlank c) (take k t)" by (simp add: list_all_length)
  with k kl sl show "specPathPrefix (take i t)"
    unfolding specPathPrefix_def ik l b by simp
qed

lemma pathEnds_word:
  assumes "pathEnds t i"
  shows "i \<le> length t" "wordStartsAt t i"
proof -
  from assms obtain k where ik: "i = Suc k" and kl: "k < length t" and sl: "isSlash (t ! k)"
    unfolding pathEnds_def by blast
  from ik kl show "i \<le> length t" by simp
  from sl have "\<not> IsWordChar (t ! k)" unfolding isSlash_def using IsWordChar_letters(5,6) by auto
  with ik show "wordStartsAt t i" by (simp add: wordStartsAt_def)
qed

lemma list_ex_upto: "list_ex P [0..<Suc n] \<longleftrightarrow> (\<exists>i\<le>n. P i)"
  unfolding list_ex_iff set_upt by (auto simp: less_Suc_eq_le)

lemma specBeginsWithGit_iff: "specBeginsWithGit t \<longleftrightarrow> MatchString gitCommandRegex t"
proof -
  have "specBeginsWithGit t
      \<longleftrightarrow> (\<exists>i. (i = 0 \<or> pathEnds t i) \<and> foldAt ''git'' t i
               \<and> (wordEndsAt t (i + 3) \<or> foldAt ''.exe'' t (i + 3) \<and> wordEndsAt t (i + 3 + 4)))"
    (is "_ \<longleftrightarrow> ?rhs")
  proof
    assume "specBeginsWithGit t"
    then obtain i where le: "i \<le> length t" and p: "i = 0 \<or> specPathPrefix (take i t)"
      and g: "wholeWordAt ''git'' t i \<or> wholeWordAt ''git.exe'' t i"
      unfolding specBeginsWithGit_def list_ex_upto by blast
    from p have "i = 0 \<or> pathEnds t i" unfolding specPathPrefix_take [OF le] .
    moreover from g have "foldAt ''git'' t i
        \<and> (wordEndsAt t (i + 3) \<or> foldAt ''.exe'' t (i + 3) \<and> wordEndsAt t (i + 3 + 4))"
      unfolding wholeWordAt_git wholeWordAt_git_exe by blast
    ultimately show ?rhs by blast
  next
    assume ?rhs
    then obtain i where p: "i = 0 \<or> pathEnds t i" and g: "foldAt ''git'' t i"
      and e: "wordEndsAt t (i + 3) \<or> foldAt ''.exe'' t (i + 3) \<and> wordEndsAt t (i + 3 + 4)"
      by blast
    from g have le: "i \<le> length t" by (simp add: foldAt_def)
    from p have ws: "wordStartsAt t i"
    proof
      assume "i = 0"
      then show ?thesis by (simp add: wordStartsAt_def)
    next
      assume "pathEnds t i"
      then show ?thesis by (rule pathEnds_word(2))
    qed
    from p have "i = 0 \<or> specPathPrefix (take i t)" unfolding specPathPrefix_take [OF le] .
    moreover from g e ws have "wholeWordAt ''git'' t i \<or> wholeWordAt ''git.exe'' t i"
      unfolding wholeWordAt_git wholeWordAt_git_exe by blast
    ultimately show "specBeginsWithGit t"
      unfolding specBeginsWithGit_def list_ex_upto using le by blast
  qed
  then show ?thesis unfolding MatchString_git .
qed

lemma specContainsWord_commit: "specContainsWord ''commit'' t \<longleftrightarrow> MatchString commitWordRegex t"
proof -
  have "specContainsWord ''commit'' t
      \<longleftrightarrow> (\<exists>p. foldAt ''commit'' t p \<and> wordStartsAt t p \<and> wordEndsAt t (p + 6))"
    (is "_ \<longleftrightarrow> ?rhs")
  proof
    assume "specContainsWord ''commit'' t"
    then show ?rhs unfolding specContainsWord_def list_ex_upto wholeWordAt_commit by blast
  next
    assume ?rhs
    then obtain p where p: "foldAt ''commit'' t p \<and> wordStartsAt t p \<and> wordEndsAt t (p + 6)" ..
    then have "p \<le> length t" by (simp add: foldAt_def)
    with p show "specContainsWord ''commit'' t"
      unfolding specContainsWord_def list_ex_upto wholeWordAt_commit by blast
  qed
  then show ?thesis unfolding MatchString_commit .
qed

lemma isGitCommitSubcommand_spec:
  "isGitCommitSubcommand segment
     \<longleftrightarrow> (let t = TrimSpace segment
          in t \<noteq> [] \<and> specBeginsWithGit t \<and> specContainsWord ''commit'' t)"
  unfolding isGitCommitSubcommand_def Let_def specBeginsWithGit_iff specContainsWord_commit
  by simp

text \<open>
  Claim C2. \<open>IsGitCommitCommand\<close> returns true exactly when the command, split on the runs of
  \<open>;\<close>, \<open>&\<close> and \<open>|\<close>, has a segment that after trimming is not empty, begins with \<open>git\<close> or
  \<open>git.exe\<close> as a whole word, in any mix of cases, with or without a path in front, and
  holds the whole word \<open>commit\<close>, in any mix of cases. A path in front is a run of at least
  one character other than \<open>\t \n \f \r\<close> and space, closed by a slash or a backslash. The
  three examples of the specification classify as it says.
\<close>

theorem classifier_meets_spec:
  "(IsGitCommitCommand command \<longleftrightarrow> specIsGitCommit command)
   \<and> IsGitCommitCommand (''git -C /x commit -m '' @ [CHR 0x27] @ ''y'' @ [CHR 0x27])
   \<and> \<not> IsGitCommitCommand (''echo '' @ [CHR 0x22] @ ''git is for commit'' @ [CHR 0x22])
   \<and> \<not> IsGitCommitCommand ''gitcommit''"
proof (intro conjI)
  have "isGitCommitSubcommand
      = (\<lambda>segment. let t = TrimSpace segment
                    in t \<noteq> [] \<and> specBeginsWithGit t \<and> specContainsWord ''commit'' t)"
    by (rule ext) (rule isGitCommitSubcommand_spec)
  then show "IsGitCommitCommand command \<longleftrightarrow> specIsGitCommit command"
    unfolding IsGitCommitCommand_def specIsGitCommit_def Split_separators by (simp only:)
next
  show "IsGitCommitCommand (''git -C /x commit -m '' @ [CHR 0x27] @ ''y'' @ [CHR 0x27])"
    by (simp add: git_eval regex_eval string_eval)
next
  show "\<not> IsGitCommitCommand (''echo '' @ [CHR 0x22] @ ''git is for commit'' @ [CHR 0x22])"
    by (simp add: git_eval regex_eval string_eval)
next
  show "\<not> IsGitCommitCommand ''gitcommit''"
    by (simp add: git_eval regex_eval string_eval)
qed

theorem classifier_meets_spec_witness:
  "specIsGitCommit ''git add . && /usr/bin/GIT.exe commit -m x''
   \<and> IsGitCommitCommand ''git add . && /usr/bin/GIT.exe commit -m x''
   \<and> \<not> specIsGitCommit ''git status; echo commit''
   \<and> \<not> IsGitCommitCommand ''git status; echo commit''"
proof -
  have 1: "IsGitCommitCommand ''git add . && /usr/bin/GIT.exe commit -m x''"
    by (simp add: git_eval regex_eval string_eval)
  have 2: "\<not> IsGitCommitCommand ''git status; echo commit''"
    by (simp add: git_eval regex_eval string_eval)
  from classifier_meets_spec [of "''git add . && /usr/bin/GIT.exe commit -m x''", THEN conjunct1] 1
  have 3: "specIsGitCommit ''git add . && /usr/bin/GIT.exe commit -m x''" by blast
  from classifier_meets_spec [of "''git status; echo commit''", THEN conjunct1] 2
  have 4: "\<not> specIsGitCommit ''git status; echo commit''" by blast
  from 3 1 4 2 show ?thesis by (intro conjI)
qed

subsection \<open>Line numbers\<close>

lemma clampPosition_range:
  "0 \<le> clampPosition content position \<and> clampPosition content position \<le> int (length content)"
  by (simp add: clampPosition_def Let_def)

text \<open>
  Claim C9. \<open>GetLineNumber\<close> is defined for every content and every integer position,
  negative or beyond the end: the position it slices at lies in \<open>[0, len(content)]\<close>, so
  the slice \<open>content[:position]\<close> is always in range, it is the position clamped into that
  interval, and the result is one more than the number of newlines of that prefix, hence
  at least 1.
\<close>

theorem GetLineNumber_total_clamped:
  "0 \<le> clampPosition content position
   \<and> clampPosition content position \<le> int (length content)
   \<and> clampPosition content position = max 0 (min position (int (length content)))
   \<and> GetLineNumber content position
       = 1 + int (count_list (take (nat (max 0 (min position (int (length content))))) content) (CHR 0x0A))
   \<and> 1 \<le> GetLineNumber content position"
  by (simp add: GetLineNumber_def CountNewlines_def newline_def clampPosition_def Let_def max_def min_def)

end
